theory Spec2Isabelle
  imports Main "HOL-Library.Multiset" "HOL-Library.Sublist"
    "HOL-Library.Char_ord" "HOL-Library.List_Lexorder"
begin

section \<open>Data model\<close>

text \<open>
  Python text is modelled by its UTF-8 byte string (\<open>string\<close>): equality, substring
  containment, prefix tests and the code point order used by \<open>sorted\<close> coincide with
  the byte-wise ones on UTF-8. The non-ASCII literals of the source are spelled out as
  bytes below. A Python string can also hold a lone surrogate (\<open>json.loads\<close> yields
  one for an unpaired escape), which UTF-8 cannot encode; it is modelled by the three
  bytes that the generalised encoding gives it, \<open>0xED\<close> then a byte from \<open>0xA0\<close> to
  \<open>0xBF\<close> then a continuation byte.

  An article is a Python dict read with \<open>a.get(...)\<close>; a field is \<open>None\<close> when the
  key is absent (a key that holds \<open>null\<close> is not told apart from an absent one).
  \<open>zh_title\<close> and \<open>zh_summary\<close> are the two keys that \<open>create_blog_post\<close> adds.
\<close>

record article =
  title :: "string option"
  link :: "string option"
  description :: "string option"
  comments :: "string option"
  pub_date :: "string option"
  source :: "string option"
  source_name :: "string option"
  zh_title :: "string option"
  zh_summary :: "string option"

text \<open>Exceptions are values: the class name and the message \<open>str(e)\<close>.\<close>

datatype exn = Exn (exn_class: string) (exn_msg: string)

definition IndexError :: exn where
  "IndexError = Exn ''IndexError'' ''list index out of range''"

definition RuntimeError :: "string \<Rightarrow> exn" where
  "RuntimeError msg = Exn ''RuntimeError'' msg"

subsection \<open>Python list operations on unbounded integers\<close>

text \<open>\<open>xs[:n]\<close>: a negative bound counts from the end.\<close>

definition py_take :: "int \<Rightarrow> 'a list \<Rightarrow> 'a list" where
  "py_take n xs =
     (if 0 \<le> n then take (nat n) xs else take (length xs - nat (- n)) xs)"

text \<open>\<open>xs[i]\<close>: a negative index counts from the end, out of range raises.\<close>

definition py_index :: "'a list \<Rightarrow> int \<Rightarrow> 'a option" where
  "py_index xs i =
     (if 0 \<le> i \<and> i < int (length xs) then Some (xs ! nat i)
      else if i < 0 \<and> - int (length xs) \<le> i then Some (xs ! nat (int (length xs) + i))
      else None)"

text \<open>\<open>x or d\<close> on an optional string: \<open>None\<close> and the empty string are falsy.\<close>

definition or_else :: "string option \<Rightarrow> string \<Rightarrow> string" where
  "or_else x d = (case x of None \<Rightarrow> d | Some s \<Rightarrow> if s = [] then d else s)"

section \<open>Balanced selector (\<open>pick_articles_balanced\<close>)\<close>

text \<open>\<open>a.get('source', 'unknown')\<close>\<close>

definition source_key :: "article \<Rightarrow> string" where
  "source_key a = (case source a of None \<Rightarrow> ''unknown'' | Some s \<Rightarrow> s)"

text \<open>
  \<open>buckets.setdefault(k, []).append(a)\<close> on a dict kept as an association list in
  insertion order.
\<close>

fun setdefault_append ::
  "string \<Rightarrow> article \<Rightarrow> (string \<times> article list) list \<Rightarrow> (string \<times> article list) list" where
  "setdefault_append k a [] = [(k, [a])]"
| "setdefault_append k a ((k', xs) # bs) =
     (if k = k' then (k', xs @ [a]) # bs else (k', xs) # setdefault_append k a bs)"

definition make_buckets :: "article list \<Rightarrow> (string \<times> article list) list" where
  "make_buckets articles = foldl (\<lambda>b a. setdefault_append (source_key a) a b) [] articles"

text \<open>\<open>order = source_order or sorted(buckets.keys())\<close>\<close>

definition selection_order ::
  "(string \<times> article list) list \<Rightarrow> string list option \<Rightarrow> string list" where
  "selection_order buckets source_order =
     (case source_order of
        None \<Rightarrow> sort (map fst buckets)
      | Some so \<Rightarrow> if so = [] then sort (map fst buckets) else so)"

text \<open>The first \<open>for src in order\<close> loop: it either returns or falls through.\<close>

datatype pass_result = Returned "article list" | Fallthrough "article list"

fun first_pass ::
  "(string \<times> article list) list \<Rightarrow> int \<Rightarrow> int \<Rightarrow> string list \<Rightarrow> article list \<Rightarrow> pass_result" where
  "first_pass buckets limit per_source [] picked = Fallthrough picked"
| "first_pass buckets limit per_source (src # rest) picked =
     (let picked' = (case map_of buckets src of
                       Some xs \<Rightarrow> picked @ py_take per_source xs
                     | None \<Rightarrow> picked)
      in if limit \<le> int (length picked') then Returned (py_take limit picked')
         else first_pass buckets limit per_source rest picked')"

text \<open>One round of the fill loop: the inner \<open>for src in order\<close>.\<close>

datatype round_result =
  Raised exn | RoundReturned "article list" | Completed "article list" bool

fun fill_round ::
  "(string \<times> article list) list \<Rightarrow> int \<Rightarrow> int \<Rightarrow> string list \<Rightarrow> article list \<Rightarrow> bool
     \<Rightarrow> round_result" where
  "fill_round buckets limit i [] picked progressed = Completed picked progressed"
| "fill_round buckets limit i (src # rest) picked progressed =
     (case map_of buckets src of
        None \<Rightarrow> fill_round buckets limit i rest picked progressed
      | Some xs \<Rightarrow>
          if i < int (length xs) then
            (case py_index xs i of
               None \<Rightarrow> Raised IndexError
             | Some x \<Rightarrow>
                 if limit \<le> int (length (picked @ [x]))
                 then RoundReturned (py_take limit (picked @ [x]))
                 else fill_round buckets limit i rest (picked @ [x]) True)
          else fill_round buckets limit i rest picked progressed)"

text \<open>The longest bucket among the sources of the order bounds the round index.\<close>

fun longest_bucket :: "(string \<times> article list) list \<Rightarrow> string list \<Rightarrow> int" where
  "longest_bucket buckets [] = 0"
| "longest_bucket buckets (src # rest) =
     max (case map_of buckets src of None \<Rightarrow> 0 | Some xs \<Rightarrow> int (length xs))
         (longest_bucket buckets rest)"

lemma fill_round_progress:
  "fill_round buckets limit i order picked progressed = Completed picked' True
     \<Longrightarrow> progressed \<or> i < longest_bucket buckets order"
proof (induction order arbitrary: picked progressed)
  case Nil
  then show ?case by simp
next
  case (Cons src rest)
  show ?case
  proof (cases "map_of buckets src")
    case None
    with Cons show ?thesis by fastforce
  next
    case (Some xs)
    show ?thesis
    proof (cases "i < int (length xs)")
      case True
      with Some show ?thesis by (simp add: max_def)
    next
      case False
      with Some Cons show ?thesis by fastforce
    qed
  qed
qed

text \<open>The \<open>while len(picked) < limit\<close> loop.\<close>

function fill ::
  "(string \<times> article list) list \<Rightarrow> int \<Rightarrow> string list \<Rightarrow> int \<Rightarrow> article list
     \<Rightarrow> exn + article list" where
  "fill buckets limit order i picked =
     (if int (length picked) < limit then
        (case fill_round buckets limit i order picked False of
           Raised e \<Rightarrow> Inl e
         | RoundReturned r \<Rightarrow> Inr r
         | Completed picked' progressed \<Rightarrow>
             if \<not> progressed then Inr (py_take limit picked')
             else fill buckets limit order (i + 1) picked')
      else Inr (py_take limit picked))"
  by pat_completeness auto
termination
proof (relation "measure (\<lambda>(buckets, limit, order, i, picked).
                    nat (longest_bucket buckets order - i))")
  show "wf (measure (\<lambda>(buckets, limit, order, i, picked).
                    nat (longest_bucket buckets order - i)))"
    by simp
next
  fix buckets :: "(string \<times> article list) list" and limit :: int
    and order :: "string list" and i :: int and picked picked' :: "article list"
    and progressed :: bool
  assume "fill_round buckets limit i order picked False = Completed picked' progressed"
    and "\<not> \<not> progressed"
  then have "i < longest_bucket buckets order"
    using fill_round_progress [of buckets limit i order picked False picked'] by simp
  then show "((buckets, limit, order, i + 1, picked'), (buckets, limit, order, i, picked))
      \<in> measure (\<lambda>(buckets, limit, order, i, picked).
                    nat (longest_bucket buckets order - i))"
    by simp
qed

definition pick_articles_balanced ::
  "article list \<Rightarrow> int \<Rightarrow> int \<Rightarrow> string list option \<Rightarrow> exn + article list" where
  "pick_articles_balanced articles limit per_source source_order =
     (let buckets = make_buckets articles;
          order = selection_order buckets source_order
      in case first_pass buckets limit per_source order [] of
           Returned r \<Rightarrow> Inr r
         | Fallthrough picked \<Rightarrow> fill buckets limit order per_source picked)"

section \<open>Category classifier (\<open>categorize\<close>)\<close>

text \<open>The five entries of \<open>CATEGORIES\<close>, as UTF-8 bytes.\<close>

definition cat_ai :: string where
  "cat_ai =
    [CHR 0x41, CHR 0x49, CHR 0x20, CHR 0xE4, CHR 0xB8, CHR 0x8E, CHR 0xE6, CHR 0x9C,
     CHR 0xBA, CHR 0xE5, CHR 0x99, CHR 0xA8, CHR 0xE5, CHR 0xAD, CHR 0xA6, CHR 0xE4,
     CHR 0xB9, CHR 0xA0]"

definition cat_games :: string where
  "cat_games =
    [CHR 0xE6, CHR 0xB8, CHR 0xB8, CHR 0xE6, CHR 0x88, CHR 0x8F, CHR 0xE4, CHR 0xB8,
     CHR 0x8E, CHR 0xE6, CHR 0x80, CHR 0x80, CHR 0xE6, CHR 0x97, CHR 0xA7, CHR 0xE7,
     CHR 0xA7, CHR 0x91, CHR 0xE6, CHR 0x8A, CHR 0x80]"

definition cat_tools :: string where
  "cat_tools =
    [CHR 0xE5, CHR 0xBC, CHR 0x80, CHR 0xE5, CHR 0x8F, CHR 0x91, CHR 0xE5, CHR 0xB7,
     CHR 0xA5, CHR 0xE5, CHR 0x85, CHR 0xB7, CHR 0xE4, CHR 0xB8, CHR 0x8E, CHR 0xE5,
     CHR 0xBC, CHR 0x80, CHR 0xE6, CHR 0xBA, CHR 0x90]"

definition cat_infra :: string where
  "cat_infra =
    [CHR 0xE5, CHR 0x9F, CHR 0xBA, CHR 0xE7, CHR 0xA1, CHR 0x80, CHR 0xE8, CHR 0xAE,
     CHR 0xBE, CHR 0xE6, CHR 0x96, CHR 0xBD, CHR 0xE4, CHR 0xB8, CHR 0x8E, CHR 0xE8,
     CHR 0xA1, CHR 0x8C, CHR 0xE4, CHR 0xB8, CHR 0x9A]"

definition cat_misc :: string where
  "cat_misc = [CHR 0xE8, CHR 0xB6, CHR 0xA3, CHR 0xE9, CHR 0x97, CHR 0xBB]"

definition CATEGORIES :: "string list" where
  "CATEGORIES = [cat_ai, cat_games, cat_tools, cat_infra, cat_misc]"

text \<open>
  \<open>str.lower()\<close>. An ASCII character is mapped by the table below, whatever surrounds
  it. What a non-ASCII code point becomes is given by the Unicode tables of the
  interpreter, which are a parameter here: \<open>unicode_lower before c after\<close> is asked at
  every non-ASCII byte \<open>c\<close>, with the text before and after it. For the first byte of a
  code point it stands for the bytes of the lower-cased code point (they can be ASCII
  letters, as for the Kelvin sign and the dotted capital I, and they can depend on the
  context, as for the capital sigma), and for a continuation byte for nothing.
\<close>

type_synonym case_table = "string \<Rightarrow> char \<Rightarrow> string \<Rightarrow> string"

definition is_ascii :: "char \<Rightarrow> bool" where
  "is_ascii c = (\<not> digit7 c)"

definition lower_char :: "char \<Rightarrow> char" where
  "lower_char c =
     (case map_of (zip ''ABCDEFGHIJKLMNOPQRSTUVWXYZ'' ''abcdefghijklmnopqrstuvwxyz'') c of
        None \<Rightarrow> c
      | Some d \<Rightarrow> d)"

fun lower_from :: "case_table \<Rightarrow> string \<Rightarrow> string \<Rightarrow> string" where
  "lower_from unicode_lower before [] = []"
| "lower_from unicode_lower before (c # s) =
     (if is_ascii c then [lower_char c] else unicode_lower before c s)
     @ lower_from unicode_lower (before @ [c]) s"

definition py_lower :: "case_table \<Rightarrow> string \<Rightarrow> string" where
  "py_lower unicode_lower s = lower_from unicode_lower [] s"

text \<open>\<open>k in t\<close> on strings: \<open>k\<close> occurs in \<open>t\<close> as a contiguous substring.\<close>

fun contains :: "string \<Rightarrow> string \<Rightarrow> bool" where
  "contains k [] = (k = [])"
| "contains k (c # t) = (prefix k (c # t) \<or> contains k t)"

definition categorize :: "case_table \<Rightarrow> string \<Rightarrow> string" where
  "categorize unicode_lower title_text =
     (let t = py_lower unicode_lower title_text in
      if list_ex (\<lambda>k. contains k t)
           [''ai'', ''llm'', ''model'', ''agent'', ''gpt'', ''claude'', ''grok'', ''ml '',
            ''neural'', ''deep learning'']
      then cat_ai
      else if list_ex (\<lambda>k. contains k t)
           [''game'', ''gaming'', ''retro'', ''vintage'', ''nostalgia'', ''classic'',
            ''emulator'', ''amiga'', ''commodore'']
      then cat_games
      else if list_ex (\<lambda>k. contains k t)
           [''rust'', ''python'', ''javascript'', ''github'', ''open source'', ''framework'',
            ''library'', ''tool'', ''compiler'', ''database'', ''sql'']
      then cat_tools
      else if list_ex (\<lambda>k. contains k t)
           [''cloud'', ''aws'', ''gcp'', ''azure'', ''server'', ''datacenter'',
            ''infrastructure'', ''kubernetes'', ''docker'', ''devops'', ''security'',
            ''privacy'', ''encryption'']
      then cat_infra
      else cat_misc)"

text \<open>
  The classifier as the specification words it: an ordered table of categories with
  their keyword sets, a containment test on the lower-cased title, the first category
  with a matching keyword wins, and a catch-all.
\<close>

definition category_table :: "(string \<times> string list) list" where
  "category_table =
     [(cat_ai, [''ai'', ''llm'', ''model'', ''agent'', ''gpt'', ''claude'', ''grok'', ''ml '',
                ''neural'', ''deep learning'']),
      (cat_games, [''game'', ''gaming'', ''retro'', ''vintage'', ''nostalgia'', ''classic'',
                   ''emulator'', ''amiga'', ''commodore'']),
      (cat_tools, [''rust'', ''python'', ''javascript'', ''github'', ''open source'',
                   ''framework'', ''library'', ''tool'', ''compiler'', ''database'', ''sql'']),
      (cat_infra, [''cloud'', ''aws'', ''gcp'', ''azure'', ''server'', ''datacenter'',
                   ''infrastructure'', ''kubernetes'', ''docker'', ''devops'', ''security'',
                   ''privacy'', ''encryption''])]"

definition classify_spec :: "case_table \<Rightarrow> string \<Rightarrow> string" where
  "classify_spec unicode_lower title_text =
     (case find (\<lambda>(c, ks). list_ex (\<lambda>k. contains k (py_lower unicode_lower title_text)) ks)
             category_table of
        Some (c, ks) \<Rightarrow> c
      | None \<Rightarrow> cat_misc)"

section \<open>Translation client and cache\<close>

subsection \<open>Environment and backends\<close>

text \<open>
  The two environment variables read by the scripts; \<open>None\<close> is an unset variable,
  which \<open>os.environ.get(name, '')\<close> reads as the empty string.
\<close>

record environ =
  ANTHROPIC_API_KEY :: "string option"
  OPENAI_API_KEY :: "string option"

definition getenv :: "string option \<Rightarrow> string" where
  "getenv v = (case v of None \<Rightarrow> [] | Some s \<Rightarrow> s)"

text \<open>\<open>str.strip()\<close> for the ASCII white space characters.\<close>

definition is_space :: "char \<Rightarrow> bool" where
  "is_space c = (c \<in> set [CHR 0x20, CHR 0x09, CHR 0x0A, CHR 0x0B, CHR 0x0C, CHR 0x0D,
                          CHR 0x1C, CHR 0x1D, CHR 0x1E, CHR 0x1F])"

definition py_strip :: "string \<Rightarrow> string" where
  "py_strip s = rev (dropWhile is_space (rev (dropWhile is_space s)))"

text \<open>
  A backend is the remote service together with the parsing of its reply, that is the
  body of the \<open>try\<close> block for Minimax and the statements after it for OpenAI: given
  the number of calls made so far (the service is free to answer differently each time),
  the title, the description and the source, it yields a translated pair or the
  exception raised by the request or by the parsing.
\<close>

type_synonym backend = "nat \<Rightarrow> string \<Rightarrow> string \<Rightarrow> string \<Rightarrow> exn + (string \<times> string)"

text \<open>\<open>llm_translate.translate_title_and_summary\<close>, with the call counter threaded.\<close>

definition translate_title_and_summary ::
  "environ \<Rightarrow> backend \<Rightarrow> backend \<Rightarrow> nat \<Rightarrow> string \<Rightarrow> string option \<Rightarrow> string option
     \<Rightarrow> (exn + (string \<times> string)) \<times> nat" where
  "translate_title_and_summary env minimax openai ncalls title_text description_text source_text =
     (let src = or_else source_text [];
          desc = py_strip (or_else description_text []);
          anthropic_key = py_strip (getenv (ANTHROPIC_API_KEY env))
      in if anthropic_key \<noteq> [] then
           (case minimax ncalls title_text desc src of
              Inr r \<Rightarrow> (Inr r, Suc ncalls)
            | Inl e \<Rightarrow>
                (Inl (RuntimeError (''Minimax translation failed: '' @ exn_msg e)), Suc ncalls))
         else
           let openai_key = py_strip (getenv (OPENAI_API_KEY env))
           in if openai_key = [] then
                (Inl (RuntimeError
                   ''No translation API configured (neither ANTHROPIC_API_KEY nor OPENAI_API_KEY)''),
                 ncalls)
              else (openai ncalls title_text desc src, Suc ncalls))"

subsection \<open>\<open>translate_with_llm\<close>\<close>

definition zh_community :: string where
  "zh_community = [CHR 0xE7, CHR 0xA4, CHR 0xBE, CHR 0xE5, CHR 0x8C, CHR 0xBA]"

definition zh_from :: string where
  "zh_from = [CHR 0xE6, CHR 0x9D, CHR 0xA5, CHR 0xE8, CHR 0x87, CHR 0xAA, CHR 0x20]"

definition zh_hot_topics :: string where
  "zh_hot_topics =
    [CHR 0x20, CHR 0xE7, CHR 0x9A, CHR 0x84, CHR 0xE7, CHR 0x83, CHR 0xAD, CHR 0xE9,
     CHR 0x97, CHR 0xA8, CHR 0xE8, CHR 0xAF, CHR 0x9D, CHR 0xE9, CHR 0xA2, CHR 0x98,
     CHR 0xE3, CHR 0x80, CHR 0x82]"

definition zh_points_heading :: string where
  "zh_points_heading =
    [CHR 0xE8, CHR 0xA6, CHR 0x81, CHR 0xE7, CHR 0x82, CHR 0xB9, CHR 0xEF, CHR 0xBC, CHR 0x9A]"

definition zh_placeholder :: string where
  "zh_placeholder =
    [CHR 0xE7, CHR 0xBB, CHR 0x86, CHR 0xE8, CHR 0x8A, CHR 0x82, CHR 0xE5, CHR 0xBE,
     CHR 0x85, CHR 0xE8, CHR 0xA1, CHR 0xA5, CHR 0xE5, CHR 0x85, CHR 0x85]"

text \<open>The literal appended to the summary: a heading line and three placeholder bullets.\<close>

definition zh_points :: string where
  "zh_points =
     [CHR 0x0A, CHR 0x0A] @ zh_points_heading
     @ [CHR 0x0A] @ ''- '' @ zh_placeholder
     @ [CHR 0x0A] @ ''- '' @ zh_placeholder
     @ [CHR 0x0A] @ ''- '' @ zh_placeholder"

text \<open>The statements after the \<open>try\<close> block: the template.\<close>

definition fallback_template :: "string \<Rightarrow> string option \<Rightarrow> string \<times> string" where
  "fallback_template title_text source_name_text =
     (let zh_title = title_text;
          src = or_else source_name_text zh_community;
          zh_summary = zh_from @ src @ zh_hot_topics;
          zh_summary = zh_summary @ zh_points
      in (zh_title, zh_summary))"

definition has_api_key :: "environ \<Rightarrow> bool" where
  "has_api_key env =
     (py_strip (getenv (ANTHROPIC_API_KEY env)) \<noteq> [] \<or>
      py_strip (getenv (OPENAI_API_KEY env)) \<noteq> [])"

text \<open>
  \<open>except Exception\<close> catches whatever the client raises, prints it, and execution
  continues with the template.
\<close>

definition translate_with_llm ::
  "environ \<Rightarrow> backend \<Rightarrow> backend \<Rightarrow> nat \<Rightarrow> string \<Rightarrow> string option \<Rightarrow> string option
     \<Rightarrow> (exn + (string \<times> string)) \<times> nat" where
  "translate_with_llm env minimax openai ncalls title_text description_text source_name_text =
     (if has_api_key env then
        (case translate_title_and_summary env minimax openai ncalls title_text
                (Some (or_else description_text [])) source_name_text of
           (Inr result, ncalls') \<Rightarrow> (Inr result, ncalls')
         | (Inl e, ncalls') \<Rightarrow> (Inr (fallback_template title_text source_name_text), ncalls'))
      else (Inr (fallback_template title_text source_name_text), ncalls))"

subsection \<open>The cached translation loop of \<open>create_blog_post\<close>\<close>

text \<open>
  A cache entry is the dict \<open>{"zh_title": ..., "zh_summary": ...}\<close>, read with
  \<open>.get\<close>. The cache is a dict of such entries, kept as an association list in
  insertion order, which is also the order of the dump. The state of the loop is the
  cache and the number of backend calls made so far.
\<close>

type_synonym cache_entry = "string option \<times> string option"

type_synonym cache_dict = "(string \<times> cache_entry) list"

record run_state =
  cache :: cache_dict
  calls :: nat

text \<open>\<open>key = a.get("link") or a.get("title")\<close>, \<open>None\<close> when \<open>not key\<close>.\<close>

definition cache_key :: "article \<Rightarrow> string option" where
  "cache_key a =
     (let key = or_else (link a) (or_else (title a) [])
      in if key = [] then None else Some key)"

text \<open>
  The body of \<open>for a in articles\<close>. The assignment \<open>cache[key] = ...\<close> is only
  reached with a key that the cache does not have, so it adds the entry at the end.
\<close>

definition translate_article ::
  "environ \<Rightarrow> backend \<Rightarrow> backend \<Rightarrow> run_state \<Rightarrow> article \<Rightarrow> exn + (article \<times> run_state)" where
  "translate_article env minimax openai st a =
     (case cache_key a of
        None \<Rightarrow> Inr (a, st)
      | Some key \<Rightarrow>
          (case map_of (cache st) key of
             Some entry \<Rightarrow> Inr (a\<lparr>zh_title := fst entry, zh_summary := snd entry\<rparr>, st)
           | None \<Rightarrow>
               (case translate_with_llm env minimax openai (calls st)
                       (case title a of None \<Rightarrow> [] | Some t \<Rightarrow> t)
                       (description a) (source_name a) of
                  (Inl e, ncalls) \<Rightarrow> Inl e
                | (Inr (zh_title', zh_summary'), ncalls) \<Rightarrow>
                    Inr (a\<lparr>zh_title := Some zh_title', zh_summary := Some zh_summary'\<rparr>,
                         st\<lparr>cache := cache st @ [(key, (Some zh_title', Some zh_summary'))],
                            calls := ncalls\<rparr>))))"

fun translate_selected ::
  "environ \<Rightarrow> backend \<Rightarrow> backend \<Rightarrow> run_state \<Rightarrow> article list
     \<Rightarrow> exn + (article list \<times> run_state)" where
  "translate_selected env minimax openai st [] = Inr ([], st)"
| "translate_selected env minimax openai st (a # rest) =
     (case translate_article env minimax openai st a of
        Inl e \<Rightarrow> Inl e
      | Inr (a', st') \<Rightarrow>
          (case translate_selected env minimax openai st' rest of
             Inl e \<Rightarrow> Inl e
           | Inr (rest', st'') \<Rightarrow> Inr (a' # rest', st'')))"

text \<open>
  The cache file holds a dict of entries, or nothing that \<open>read_text\<close> and
  \<open>json.loads\<close> accept (\<open>None\<close>: missing, empty or corrupt), which is read as the
  empty dict.
\<close>

definition read_cache :: "cache_dict option \<Rightarrow> cache_dict" where
  "read_cache disk = (case disk of None \<Rightarrow> [] | Some c \<Rightarrow> c)"

text \<open>
  What the UTF-8 codec refuses: a lone surrogate, that is the byte \<open>0xED\<close> followed by
  a byte from \<open>0xA0\<close> to \<open>0xBF\<close> (the bytes whose three top bits are 1, 0, 1).
\<close>

fun has_surrogate :: "string \<Rightarrow> bool" where
  "has_surrogate (a # b # s) =
     ((a = CHR 0xED \<and> digit7 b \<and> \<not> digit6 b \<and> digit5 b) \<or> has_surrogate (b # s))"
| "has_surrogate s = False"

definition encodable :: "string option \<Rightarrow> bool" where
  "encodable x = (case x of None \<Rightarrow> True | Some s \<Rightarrow> \<not> has_surrogate s)"

text \<open>The strings of the dump: the keys and the two values of every entry.\<close>

definition cache_writable :: "cache_dict \<Rightarrow> bool" where
  "cache_writable c =
     list_all (\<lambda>(key, zh_title', zh_summary').
                 encodable (Some key) \<and> encodable zh_title' \<and> encodable zh_summary') c"

definition UnicodeEncodeError :: exn where
  "UnicodeEncodeError = Exn ''UnicodeEncodeError'' ''surrogates not allowed''"

text \<open>
  \<open>cache_path.write_text(json.dumps(cache, ensure_ascii=False, indent=2))\<close>: the
  dump keeps every character as it is; \<open>write_text\<close> opens the file for writing, which
  empties it, and then encodes the text. When the codec refuses the text the exception
  leaves the empty file behind, which the next run cannot parse. The result is the
  outcome and the file. (The file system itself is taken to work: only failures that
  the data determines are modelled.)
\<close>

definition write_cache :: "cache_dict \<Rightarrow> (exn + unit) \<times> cache_dict option" where
  "write_cache c =
     (if cache_writable c then (Inr (), Some c) else (Inl UnicodeEncodeError, None))"

text \<open>
  Lines 305 to 327 of \<open>create_blog_post\<close>: read the cache, translate the selected
  articles, write the cache. An exception in the loop leaves the file as it was. The
  result is the outcome, the cache file and the backend call counter.
\<close>

definition translate_cached ::
  "environ \<Rightarrow> backend \<Rightarrow> backend \<Rightarrow> cache_dict option \<Rightarrow> nat \<Rightarrow> article list
     \<Rightarrow> (exn + article list) \<times> cache_dict option \<times> nat" where
  "translate_cached env minimax openai disk ncalls articles =
     (case translate_selected env minimax openai
             \<lparr>cache = read_cache disk, calls = ncalls\<rparr> articles of
        Inl e \<Rightarrow> (Inl e, disk, ncalls)
      | Inr (articles', st) \<Rightarrow>
          (case write_cache (cache st) of
             (Inl e, disk') \<Rightarrow> (Inl e, disk', calls st)
           | (Inr u, disk') \<Rightarrow> (Inr articles', disk', calls st)))"

section \<open>Deduplication filter (\<open>dedupe_articles\<close>)\<close>

text \<open>The literal text of the pattern before the group, as UTF-8 bytes.\<close>

definition link_marker :: string where
  "link_marker =
    [CHR 0x5B, CHR 0xE5, CHR 0x8E, CHR 0x9F, CHR 0xE6, CHR 0x96, CHR 0x87, CHR 0xE9,
     CHR 0x93, CHR 0xBE, CHR 0xE6, CHR 0x8E, CHR 0xA5, CHR 0x5D, CHR 0x28]"

text \<open>
  A match of the pattern at the start of \<open>s\<close>: the marker, one or more characters
  other than the closing parenthesis, then the closing parenthesis. It yields the group
  and the text after the match.
\<close>

definition match_link :: "string \<Rightarrow> (string \<times> string) option" where
  "match_link s =
     (if prefix link_marker s then
        (let rest = drop (length link_marker) s;
             url = takeWhile (\<lambda>c. c \<noteq> CHR 0x29) rest;
             tail = dropWhile (\<lambda>c. c \<noteq> CHR 0x29) rest
         in if url \<noteq> [] \<and> tail \<noteq> [] then Some (url, tl tail) else None)
      else None)"

lemma match_link_shorter: "match_link s = Some (url, rest) \<Longrightarrow> length rest < length s"
proof -
  assume m: "match_link s = Some (url, rest)"
  let ?r = "drop (length link_marker) s"
  from m have "rest = tl (dropWhile (\<lambda>c. c \<noteq> CHR 0x29) ?r)"
    and "dropWhile (\<lambda>c. c \<noteq> CHR 0x29) ?r \<noteq> []"
    by (auto simp: match_link_def Let_def split: if_splits)
  then have "length rest < length (dropWhile (\<lambda>c. c \<noteq> CHR 0x29) ?r)"
    by (cases "dropWhile (\<lambda>c. c \<noteq> CHR 0x29) ?r") simp_all
  also have "\<dots> \<le> length ?r" by (rule length_dropWhile_le)
  also have "\<dots> \<le> length s" by simp
  finally show ?thesis .
qed

text \<open>\<open>re.findall\<close> with that pattern: the groups of the matches, left to right.\<close>

function findall_links :: "string \<Rightarrow> string list" where
  "findall_links [] = []"
| "findall_links (c # s) =
     (case match_link (c # s) of
        Some (url, rest) \<Rightarrow> url # findall_links rest
      | None \<Rightarrow> findall_links s)"
  by pat_completeness auto
termination
  by (relation "measure length") (auto dest: match_link_shorter)

text \<open>
  The loop \<open>for i in range(1, days + 1)\<close>. A calendar date is its day number, and
  \<open>posts d\<close> is the text of the post of day \<open>d\<close>, \<open>None\<close> when the file does not
  exist.
\<close>

fun scan_previous :: "(int \<Rightarrow> string option) \<Rightarrow> int \<Rightarrow> int list \<Rightarrow> string set \<Rightarrow> string set" where
  "scan_previous posts base [] seen_links = seen_links"
| "scan_previous posts base (i # rest) seen_links =
     scan_previous posts base rest
       (case posts (base - i) of
          Some content \<Rightarrow> seen_links \<union> set (findall_links content)
        | None \<Rightarrow> seen_links)"

definition ValueError :: exn where
  "ValueError = Exn ''ValueError'' ''time data does not match format''"

text \<open>
  \<open>strptime\<close> is the parser of the date string: the day number, or \<open>None\<close> where
  \<open>datetime.strptime\<close> raises.
\<close>

definition dedupe_articles ::
  "(string \<Rightarrow> int option) \<Rightarrow> (int \<Rightarrow> string option) \<Rightarrow> article list \<Rightarrow> string \<Rightarrow> int
     \<Rightarrow> exn + article list" where
  "dedupe_articles strptime posts articles current_date days =
     (case strptime current_date of
        None \<Rightarrow> Inl ValueError
      | Some base \<Rightarrow>
          (let seen_links = scan_previous posts base [1..days] {}
           in Inr (filter (\<lambda>a. case link a of None \<Rightarrow> True | Some l \<Rightarrow> l \<notin> seen_links)
                     articles)))"

text \<open>
  The links of the document of a day as the specification words it: the extracted links,
  and no links for a missing document.
\<close>

definition prior_links :: "(int \<Rightarrow> string option) \<Rightarrow> int \<Rightarrow> string set" where
  "prior_links posts d =
     (case posts d of None \<Rightarrow> {} | Some content \<Rightarrow> set (findall_links content))"

section \<open>Auxiliary notions and sample data\<close>

text \<open>
  Notions used in the proofs about the selector: the bucket of a source (empty when the
  source has none), the articles within reach of an order, the block taken by the first
  pass, the block taken by round \<open>i\<close> of the fill loop, and what is left from
  index \<open>i\<close> on.
\<close>

definition bucket_of :: "(string \<times> article list) list \<Rightarrow> string \<Rightarrow> article list" where
  "bucket_of b s = (case map_of b s of None \<Rightarrow> [] | Some xs \<Rightarrow> xs)"

definition pool :: "(string \<times> article list) list \<Rightarrow> string list \<Rightarrow> article set" where
  "pool b order = (\<Union>s\<in>set order. set (bucket_of b s))"

definition quota_block :: "(string \<times> article list) list \<Rightarrow> nat \<Rightarrow> string list \<Rightarrow> article list" where
  "quota_block b p order = concat (map (\<lambda>s. take p (bucket_of b s)) order)"

definition round_block :: "(string \<times> article list) list \<Rightarrow> nat \<Rightarrow> string list \<Rightarrow> article list" where
  "round_block b i order = concat (map (\<lambda>s. take 1 (drop i (bucket_of b s))) order)"

definition remaining :: "(string \<times> article list) list \<Rightarrow> nat \<Rightarrow> string list \<Rightarrow> article list" where
  "remaining b i order = concat (map (\<lambda>s. drop i (bucket_of b s)) order)"

text \<open>
  A source order under which no candidate is skipped or visited twice: empty or absent
  (the sorted keys are used), or without repetition and with the source of every article.
\<close>

definition order_covers :: "article list \<Rightarrow> string list option \<Rightarrow> bool" where
  "order_covers articles source_order =
     (case source_order of
        None \<Rightarrow> True
      | Some so \<Rightarrow> so = [] \<or> (distinct so \<and> list_all (\<lambda>a. source_key a \<in> set so) articles))"

text \<open>
  Sample articles, case tables, environments, backends, posts and caches for the
  instances.
\<close>

definition item :: "string \<Rightarrow> string \<Rightarrow> article" where
  "item src t = \<lparr>title = Some t, link = Some (''https://example.org/'' @ t),
     description = None, comments = None, pub_date = None, source = Some src,
     source_name = Some src, zh_title = None, zh_summary = None\<rparr>"

definition two_feeds :: "article list" where
  "two_feeds = [item ''lobsters'' ''a'', item ''hackernews'' ''b'', item ''lobsters'' ''c'']"

definition no_case :: case_table where
  "no_case before c after = [c]"

definition kelvin_title :: string where
  "kelvin_title = ''Doc'' @ [CHR 0xE2, CHR 0x84, CHR 0xAA] @ ''er tips''"

definition kelvin_table :: case_table where
  "kelvin_table before c after =
     (if c = CHR 0xE2 \<and> take 2 after = [CHR 0x84, CHR 0xAA] then ''k''
      else if before \<noteq> [] \<and> last before = CHR 0xE2 \<and> c = CHR 0x84 then []
      else if c = CHR 0xAA then [] else [c])"

definition env_minimax :: environ where
  "env_minimax = \<lparr>ANTHROPIC_API_KEY = Some ''sk-test'', OPENAI_API_KEY = None\<rparr>"

definition env_openai :: environ where
  "env_openai = \<lparr>ANTHROPIC_API_KEY = Some '' '', OPENAI_API_KEY = Some ''sk-test''\<rparr>"

definition env_none :: environ where
  "env_none = \<lparr>ANTHROPIC_API_KEY = None, OPENAI_API_KEY = Some '' ''\<rparr>"

definition failing_backend :: backend where
  "failing_backend n t d s = Inl (Exn ''URLError'' ''timed out'')"

definition echo_backend :: backend where
  "echo_backend n t d s = Inr (''zh:'' @ t, ''call '' @ replicate n (CHR ''+''))"

definition sample_strptime :: "string \<Rightarrow> int option" where
  "sample_strptime s = (if s = ''2026-02-10'' then Some 739657 else None)"

definition sample_post :: string where
  "sample_post =
     ''### a'' @ [CHR 0x0A] @ link_marker @ ''https://example.org/a'' @ '')'' @ [CHR 0x0A]"

definition sample_posts :: "int \<Rightarrow> string option" where
  "sample_posts d = (if d = 739656 then Some sample_post else None)"

definition fresh_state :: run_state where
  "fresh_state = \<lparr>cache = [], calls = 0\<rparr>"

definition old_cache :: cache_dict where
  "old_cache = [(''https://example.org/a'', (Some ''cached title'', Some ''cached summary''))]"

definition untitled :: article where
  "untitled = \<lparr>title = None, link = None, description = Some ''text'', comments = None,
     pub_date = None, source = Some ''hackernews'', source_name = Some ''Hacker News'',
     zh_title = None, zh_summary = None\<rparr>"

definition cut_title :: article where
  "cut_title = \<lparr>title = Some (''Launch '' @ [CHR 0xED, CHR 0xA0, CHR 0xBD]),
     link = Some ''https://example.org/b'', description = None, comments = None,
     pub_date = None, source = Some ''hackernews'', source_name = Some ''Hacker News'',
     zh_title = None, zh_summary = None\<rparr>"

definition template_hn :: string where
  "template_hn = zh_from @ ''hackernews'' @ zh_hot_topics @ zh_points"

section \<open>Properties\<close>

subsection \<open>Buckets\<close>

lemma map_of_setdefault_append:
  "map_of (setdefault_append k a b) s =
     (if s = k then Some (bucket_of b k @ [a]) else map_of b s)"
  by (induction b) (auto simp: bucket_of_def)

lemma keys_setdefault_append:
  "map fst (setdefault_append k a b) =
     (if k \<in> fst ` set b then map fst b else map fst b @ [k])"
  by (induction b) force+

lemma map_of_foldl_buckets:
  "(\<And>s. map_of b s = (if f s = [] then None else Some (f s))) \<Longrightarrow>
   map_of (foldl (\<lambda>b a. setdefault_append (source_key a) a b) b as) s =
     (if f s @ filter (\<lambda>a. source_key a = s) as = [] then None
      else Some (f s @ filter (\<lambda>a. source_key a = s) as))"
proof (induction as arbitrary: b f)
  case Nil
  then show ?case by simp
next
  case (Cons a as)
  let ?g = "\<lambda>s. f s @ filter (\<lambda>x. source_key x = s) [a]"
  have "\<And>s. map_of (setdefault_append (source_key a) a b) s =
          (if ?g s = [] then None else Some (?g s))"
    by (simp add: map_of_setdefault_append bucket_of_def Cons.prems)
  from Cons.IH [of "setdefault_append (source_key a) a b" ?g, OF this]
  show ?case by simp
qed

lemma map_of_make_buckets:
  "map_of (make_buckets articles) s =
     (if filter (\<lambda>a. source_key a = s) articles = [] then None
      else Some (filter (\<lambda>a. source_key a = s) articles))"
  unfolding make_buckets_def
  using map_of_foldl_buckets [of "[]" "\<lambda>s. []" articles s] by simp

lemma bucket_of_make_buckets:
  "bucket_of (make_buckets articles) s = filter (\<lambda>a. source_key a = s) articles"
  by (simp add: bucket_of_def map_of_make_buckets)

lemma distinct_keys_foldl:
  "distinct (map fst b) \<Longrightarrow>
   distinct (map fst (foldl (\<lambda>b a. setdefault_append (source_key a) a b) b as))"
  by (induction as arbitrary: b) (simp_all add: keys_setdefault_append)

lemma distinct_keys_make_buckets: "distinct (map fst (make_buckets articles))"
  unfolding make_buckets_def by (rule distinct_keys_foldl) simp

lemma keys_make_buckets: "fst ` set (make_buckets articles) = source_key ` set articles"
proof -
  have "fst ` set (make_buckets articles) = dom (map_of (make_buckets articles))"
    by (simp add: dom_map_of_conv_image_fst)
  also have "\<dots> = source_key ` set articles"
    by (auto simp: dom_def map_of_make_buckets filter_empty_conv)
  finally show ?thesis .
qed

declare fill.simps [simp del]

subsection \<open>Slices and indices\<close>

lemma py_take_nonneg: "0 \<le> n \<Longrightarrow> py_take n xs = take (nat n) xs"
  by (simp add: py_take_def)

lemma py_take_all: "int (length xs) \<le> n \<Longrightarrow> py_take n xs = xs"
  by (simp add: py_take_def)

lemma length_py_take: "0 \<le> n \<Longrightarrow> int (length (py_take n xs)) \<le> n"
  by (simp add: py_take_def)

lemma set_py_take: "set (py_take n xs) \<subseteq> set xs"
  by (auto simp: py_take_def dest: in_set_takeD)

lemma py_index_nonneg:
  "0 \<le> i \<Longrightarrow> i < int (length xs) \<Longrightarrow> py_index xs i = Some (xs ! nat i)"
  by (simp add: py_index_def)

lemma py_index_mem: "py_index xs i = Some x \<Longrightarrow> x \<in> set xs"
  by (auto simp: py_index_def Let_def split: if_splits)

subsection \<open>Selector: length bound and absence of errors\<close>

lemma first_pass_length:
  "0 \<le> limit \<Longrightarrow> first_pass b limit p order picked = Returned r \<Longrightarrow> int (length r) \<le> limit"
  by (induction order arbitrary: picked)
     (auto simp: Let_def length_py_take split: if_splits option.splits)

lemma fill_round_length:
  "0 \<le> limit \<Longrightarrow> fill_round b limit i order picked prog = RoundReturned r
     \<Longrightarrow> int (length r) \<le> limit"
proof (induction order arbitrary: picked prog)
  case Nil
  then show ?case by simp
next
  case (Cons src rest)
  from Cons.prems Cons.IH show ?case
    by (auto simp: length_py_take split: if_splits option.splits)
qed

lemma fill_round_no_raise:
  "0 \<le> i \<Longrightarrow> fill_round b limit i order picked prog \<noteq> Raised e"
proof (induction order arbitrary: picked prog)
  case Nil
  then show ?case by simp
next
  case (Cons src rest)
  from Cons.prems Cons.IH show ?case
    by (auto simp: py_index_nonneg split: if_splits option.splits)
qed

lemma fill_length:
  "0 \<le> limit \<Longrightarrow> fill b limit order i picked = Inr r \<Longrightarrow> int (length r) \<le> limit"
proof (induction b limit order i picked rule: fill.induct)
  case (1 b limit order i picked)
  show ?case
  proof (cases "int (length picked) < limit")
    case False
    with "1.prems" show ?thesis
      by (subst (asm) fill.simps) (auto simp: length_py_take)
  next
    case True
    show ?thesis
    proof (cases "fill_round b limit i order picked False")
      case (Raised e)
      with True "1.prems" show ?thesis by (subst (asm) fill.simps) simp
    next
      case (RoundReturned r')
      with True "1.prems" have "r = r'" by (subst (asm) fill.simps) simp
      with RoundReturned "1.prems" show ?thesis by (simp add: fill_round_length)
    next
      case (Completed picked' progressed)
      show ?thesis
      proof (cases progressed)
        case False
        with True Completed "1.prems" show ?thesis
          by (subst (asm) fill.simps) (auto simp: length_py_take)
      next
        case prog: True
        with True Completed "1.prems" have "fill b limit order (i + 1) picked' = Inr r"
          by (subst (asm) fill.simps) simp
        with "1.IH" [OF True Completed] prog "1.prems" show ?thesis by simp
      qed
    qed
  qed
qed

lemma fill_returns:
  "0 \<le> i \<Longrightarrow> \<exists>r. fill b limit order i picked = Inr r"
proof (induction b limit order i picked rule: fill.induct)
  case (1 b limit order i picked)
  show ?case
  proof (cases "int (length picked) < limit")
    case False
    then show ?thesis by (subst fill.simps) simp
  next
    case True
    show ?thesis
    proof (cases "fill_round b limit i order picked False")
      case (Raised e)
      with fill_round_no_raise [OF "1.prems"] show ?thesis by blast
    next
      case (RoundReturned r')
      with True show ?thesis by (subst fill.simps) simp
    next
      case (Completed picked' progressed)
      show ?thesis
      proof (cases progressed)
        case False
        with True Completed show ?thesis by (subst fill.simps) simp
      next
        case prog: True
        from "1.IH" [OF True Completed] prog "1.prems"
        obtain r where "fill b limit order (i + 1) picked' = Inr r" by auto
        with True Completed prog show ?thesis by (subst fill.simps) simp
      qed
    qed
  qed
qed

text \<open>
  C10 (as amended). With a non-negative \<open>per_source\<close> the selector returns a list, and
  with a non-negative \<open>limit\<close> every list it returns has at most \<open>limit\<close> elements.
  (That it terminates is the termination proof of \<open>fill\<close>.)
\<close>

theorem selector_returns_bounded:
  "(0 \<le> per_source \<longrightarrow>
      (\<exists>res. pick_articles_balanced articles limit per_source source_order = Inr res)) \<and>
   (0 \<le> limit \<longrightarrow>
      (\<forall>res. pick_articles_balanced articles limit per_source source_order = Inr res
          \<longrightarrow> int (length res) \<le> limit))"
proof (intro conjI impI allI)
  assume "0 \<le> per_source"
  then show "\<exists>res. pick_articles_balanced articles limit per_source source_order = Inr res"
    unfolding pick_articles_balanced_def Let_def
    by (auto split: pass_result.splits intro: fill_returns)
next
  fix res
  assume "0 \<le> limit"
    and "pick_articles_balanced articles limit per_source source_order = Inr res"
  then show "int (length res) \<le> limit"
    unfolding pick_articles_balanced_def Let_def
    by (auto split: pass_result.splits dest: first_pass_length fill_length)
qed

theorem selector_returns_bounded_witness:
  "(0::int) \<le> 2 \<and> (0::int) \<le> 2 \<and>
   pick_articles_balanced two_feeds 2 2 None = Inr [item ''hackernews'' ''b'', item ''lobsters'' ''a''] \<and>
   int (length [item ''hackernews'' ''b'', item ''lobsters'' ''a'']) \<le> 2"
proof -
  have h: "(0::int) \<le> 2" by simp
  have r: "pick_articles_balanced two_feeds 2 2 None
      = Inr [item ''hackernews'' ''b'', item ''lobsters'' ''a'']"
    by (simp add: pick_articles_balanced_def make_buckets_def selection_order_def item_def
        two_feeds_def source_key_def py_take_def py_index_def fill.simps)
  from selector_returns_bounded [of 2 two_feeds 2 None] h r show ?thesis by blast
qed

text \<open>
  C10 as stated fails for negative parameters: with \<open>limit = -1\<close> and three articles
  the result has one element, and with \<open>per_source = -5\<close> the index is out of range
  and no list is returned.
\<close>

theorem selector_negative_parameters_counterexample:
  "pick_articles_balanced
     [item ''hackernews'' ''a'', item ''hackernews'' ''b'', item ''hackernews'' ''c'']
     (- 1) 2 (Some []) = Inr [item ''hackernews'' ''a''] \<and>
   \<not> int (length [item ''hackernews'' ''a'']) \<le> - 1 \<and>
   pick_articles_balanced [item ''hackernews'' ''a''] 3 (- 5) (Some []) = Inl IndexError"
  by (simp add: pick_articles_balanced_def make_buckets_def selection_order_def item_def
      source_key_def py_take_def py_index_def fill.simps)

subsection \<open>Selector: where the picked articles come from\<close>

lemma pool_Cons: "pool b (s # order) = set (bucket_of b s) \<union> pool b order"
  by (simp add: pool_def)

lemma first_pass_mem:
  "first_pass b limit p order picked = Returned r \<or>
   first_pass b limit p order picked = Fallthrough r
     \<Longrightarrow> set r \<subseteq> set picked \<union> pool b order"
proof (induction order arbitrary: picked)
  case Nil
  then show ?case by simp
next
  case (Cons src rest)
  define picked' where "picked' = (case map_of b src of
      Some xs \<Rightarrow> picked @ py_take p xs | None \<Rightarrow> picked)"
  have sub: "set picked' \<subseteq> set picked \<union> set (bucket_of b src)"
    using set_py_take [of p "bucket_of b src"]
    by (auto simp: picked'_def bucket_of_def split: option.splits)
  show ?case
  proof (cases "limit \<le> int (length picked')")
    case True
    with Cons.prems have "r = py_take limit picked'"
      by (simp add: picked'_def Let_def)
    with sub set_py_take [of limit picked'] show ?thesis by (auto simp: pool_Cons)
  next
    case False
    with Cons.prems have "first_pass b limit p rest picked' = Returned r \<or>
        first_pass b limit p rest picked' = Fallthrough r"
      by (simp add: picked'_def Let_def)
    from Cons.IH [OF this] sub show ?thesis by (auto simp: pool_Cons)
  qed
qed

lemma fill_round_mem:
  "fill_round b limit i order picked prog = RoundReturned r \<or>
   fill_round b limit i order picked prog = Completed r prog'
     \<Longrightarrow> set r \<subseteq> set picked \<union> pool b order"
proof (induction order arbitrary: picked prog)
  case Nil
  then show ?case by simp
next
  case (Cons src rest)
  show ?case
  proof (cases "map_of b src")
    case None
    with Cons.prems Cons.IH [of picked prog] show ?thesis by (auto simp: pool_Cons)
  next
    case (Some xs)
    then have bxs: "bucket_of b src = xs" by (simp add: bucket_of_def)
    show ?thesis
    proof (cases "i < int (length xs)")
      case False
      with Some Cons.prems Cons.IH [of picked prog] show ?thesis by (auto simp: pool_Cons)
    next
      case True
      show ?thesis
      proof (cases "py_index xs i")
        case None
        with True Some Cons.prems show ?thesis by simp
      next
        case (Some x)
        then have x: "x \<in> set xs" by (rule py_index_mem)
        show ?thesis
        proof (cases "limit \<le> int (length (picked @ [x]))")
          case True
          with \<open>i < int (length xs)\<close> \<open>map_of b src = Some xs\<close> Some Cons.prems
          have "r = py_take limit (picked @ [x])" by simp
          with set_py_take [of limit "picked @ [x]"] x bxs show ?thesis
            by (auto simp: pool_Cons)
        next
          case False
          with \<open>i < int (length xs)\<close> \<open>map_of b src = Some xs\<close> Some Cons.prems
          have "fill_round b limit i rest (picked @ [x]) True = RoundReturned r \<or>
                fill_round b limit i rest (picked @ [x]) True = Completed r prog'"
            by simp
          from Cons.IH [OF this] x bxs show ?thesis by (auto simp: pool_Cons)
        qed
      qed
    qed
  qed
qed

lemma fill_mem:
  "fill b limit order i picked = Inr r \<Longrightarrow> set r \<subseteq> set picked \<union> pool b order"
proof (induction b limit order i picked rule: fill.induct)
  case (1 b limit order i picked)
  show ?case
  proof (cases "int (length picked) < limit")
    case False
    with "1.prems" have "r = py_take limit picked" by (subst (asm) fill.simps) simp
    with set_py_take [of limit picked] show ?thesis by auto
  next
    case True
    show ?thesis
    proof (cases "fill_round b limit i order picked False")
      case (Raised e)
      with True "1.prems" show ?thesis by (subst (asm) fill.simps) simp
    next
      case (RoundReturned r')
      with True "1.prems" have "r = r'" by (subst (asm) fill.simps) simp
      with RoundReturned fill_round_mem [of b limit i order picked False r] show ?thesis
        by simp
    next
      case (Completed picked' progressed)
      from fill_round_mem [of b limit i order picked False picked' progressed] Completed
      have sub: "set picked' \<subseteq> set picked \<union> pool b order" by simp
      show ?thesis
      proof (cases progressed)
        case False
        with True Completed "1.prems" have "r = py_take limit picked'"
          by (subst (asm) fill.simps) simp
        with set_py_take [of limit picked'] sub show ?thesis by auto
      next
        case prog: True
        with True Completed "1.prems" have "fill b limit order (i + 1) picked' = Inr r"
          by (subst (asm) fill.simps) simp
        with "1.IH" [OF True Completed] prog sub show ?thesis by auto
      qed
    qed
  qed
qed

lemma pick_mem:
  assumes "pick_articles_balanced articles limit per_source source_order = Inr res"
    and "a \<in> set res"
  shows "source_key a \<in> set (selection_order (make_buckets articles) source_order)"
proof -
  let ?b = "make_buckets articles"
  let ?o = "selection_order ?b source_order"
  have "set res \<subseteq> pool ?b ?o"
  proof (cases "first_pass ?b limit per_source ?o []")
    case (Returned r)
    with assms(1) have "r = res" by (simp add: pick_articles_balanced_def Let_def)
    with Returned first_pass_mem [of ?b limit per_source ?o "[]" res] show ?thesis by simp
  next
    case (Fallthrough picked)
    with assms(1) have "fill ?b limit ?o per_source picked = Inr res"
      by (simp add: pick_articles_balanced_def Let_def)
    from fill_mem [OF this] Fallthrough first_pass_mem [of ?b limit per_source ?o "[]" picked]
    show ?thesis by auto
  qed
  with assms(2) show ?thesis
    by (auto simp: pool_def bucket_of_make_buckets)
qed

text \<open>
  C9. A non-empty \<open>source_order\<close> is the order used, and every article of the result
  has its source in it; the sorted list of the observed sources is used when
  \<open>source_order\<close> is empty or absent.
\<close>

theorem selector_excludes_unlisted_sources:
  "(source_order \<noteq> [] \<longrightarrow> selection_order buckets (Some source_order) = source_order) \<and>
   selection_order buckets (Some []) = sort (map fst buckets) \<and>
   selection_order buckets None = sort (map fst buckets) \<and>
   (source_order \<noteq> [] \<longrightarrow>
      pick_articles_balanced articles limit per_source (Some source_order) = Inr res \<longrightarrow>
      a \<in> set res \<longrightarrow> source_key a \<in> set source_order)"
proof (intro conjI impI)
  assume ne: "source_order \<noteq> []"
    and run: "pick_articles_balanced articles limit per_source (Some source_order) = Inr res"
    and a: "a \<in> set res"
  from pick_mem [OF run a] ne show "source_key a \<in> set source_order"
    by (simp add: selection_order_def)
qed (simp_all add: selection_order_def)

theorem selector_excludes_unlisted_sources_witness:
  "[''hackernews''] \<noteq> [] \<and>
   pick_articles_balanced two_feeds 10 2 (Some [''hackernews'']) = Inr [item ''hackernews'' ''b''] \<and>
   item ''hackernews'' ''b'' \<in> set [item ''hackernews'' ''b''] \<and>
   source_key (item ''hackernews'' ''b'') \<in> set [''hackernews'']"
proof -
  have h1: "[''hackernews''] \<noteq> []" by simp
  have h2: "pick_articles_balanced two_feeds 10 2 (Some [''hackernews''])
      = Inr [item ''hackernews'' ''b'']"
    by (simp add: pick_articles_balanced_def make_buckets_def selection_order_def item_def
        two_feeds_def source_key_def py_take_def py_index_def fill.simps)
  have h3: "item ''hackernews'' ''b'' \<in> set [item ''hackernews'' ''b'']" by simp
  from selector_excludes_unlisted_sources [of "[''hackernews'']" "make_buckets two_feeds"
      two_feeds 10 2 "[item ''hackernews'' ''b'']" "item ''hackernews'' ''b''"] h1 h2 h3
  show ?thesis by blast
qed

subsection \<open>The selector with fewer candidates than the limit\<close>

lemma first_pass_all:
  "0 \<le> p \<Longrightarrow> int (length picked + length (quota_block b (nat p) order)) < limit \<Longrightarrow>
   first_pass b limit p order picked = Fallthrough (picked @ quota_block b (nat p) order)"
proof (induction order arbitrary: picked)
  case Nil
  then show ?case by (simp add: quota_block_def)
next
  case (Cons src rest)
  define picked' where "picked' = picked @ take (nat p) (bucket_of b src)"
  have eq: "(case map_of b src of Some xs \<Rightarrow> picked @ py_take p xs | None \<Rightarrow> picked) = picked'"
    using Cons.prems(1) by (simp add: picked'_def bucket_of_def py_take_nonneg split: option.splits)
  have len: "int (length picked' + length (quota_block b (nat p) rest)) < limit"
    using Cons.prems(2) by (simp add: picked'_def quota_block_def)
  then have "\<not> limit \<le> int (length picked')" by simp
  with eq have "first_pass b limit p (src # rest) picked = first_pass b limit p rest picked'"
    by (simp add: Let_def)
  also have "\<dots> = Fallthrough (picked' @ quota_block b (nat p) rest)"
    using Cons.IH [OF Cons.prems(1) len] .
  finally show ?case by (simp add: picked'_def quota_block_def)
qed

lemma take1_drop: "i < length xs \<Longrightarrow> take 1 (drop i xs) = [xs ! i]"
  by (metis One_nat_def take_0 Cons_nth_drop_Suc take_Suc_Cons)

lemma fill_round_all:
  "int (length picked + length (round_block b i order)) < limit \<Longrightarrow>
   fill_round b limit (int i) order picked prog =
     Completed (picked @ round_block b i order) (prog \<or> round_block b i order \<noteq> [])"
proof (induction order arbitrary: picked prog)
  case Nil
  then show ?case by (simp add: round_block_def)
next
  case (Cons src rest)
  have rb: "round_block b i (src # rest) = take 1 (drop i (bucket_of b src)) @ round_block b i rest"
    by (simp add: round_block_def)
  show ?case
  proof (cases "i < length (bucket_of b src)")
    case False
    then have t: "take 1 (drop i (bucket_of b src)) = []" by simp
    from False have "fill_round b limit (int i) (src # rest) picked prog =
        fill_round b limit (int i) rest picked prog"
      by (cases "map_of b src") (simp_all add: bucket_of_def)
    also have "\<dots> = Completed (picked @ round_block b i rest) (prog \<or> round_block b i rest \<noteq> [])"
      using Cons.prems by (intro Cons.IH) (simp add: rb t)
    finally show ?thesis unfolding rb t by simp
  next
    case True
    let ?xs = "bucket_of b src"
    let ?x = "?xs ! i"
    from True have t: "take 1 (drop i ?xs) = [?x]" by (rule take1_drop)
    from True obtain xs where m: "map_of b src = Some xs" and xs: "xs = ?xs"
      by (auto simp: bucket_of_def split: option.splits)
    from True xs have idx: "py_index xs (int i) = Some ?x"
      by (simp add: py_index_nonneg)
    from Cons.prems have len: "int (length (picked @ [?x]) + length (round_block b i rest)) < limit"
      unfolding rb t by simp
    then have "\<not> limit \<le> int (length (picked @ [?x]))" by simp
    with m idx True xs have "fill_round b limit (int i) (src # rest) picked prog =
        fill_round b limit (int i) rest (picked @ [?x]) True"
      by simp
    also have "\<dots> = Completed ((picked @ [?x]) @ round_block b i rest) (True \<or> round_block b i rest \<noteq> [])"
      using len by (rule Cons.IH)
    finally show ?thesis unfolding rb t by simp
  qed
qed

lemma remaining_split:
  "mset (remaining b i order) = mset (round_block b i order) + mset (remaining b (Suc i) order)"
proof (induction order)
  case Nil
  then show ?case by (simp add: remaining_def round_block_def)
next
  case (Cons s order)
  have "mset (drop i (bucket_of b s)) =
        mset (take 1 (drop i (bucket_of b s))) + mset (drop (Suc i) (bucket_of b s))"
    by (metis append_take_drop_id drop_drop mset_append plus_1_eq_Suc)
  with Cons show ?case by (simp add: remaining_def round_block_def)
qed

lemma round_block_empty: "round_block b i order = [] \<Longrightarrow> remaining b i order = []"
  by (induction order) (auto simp: remaining_def round_block_def)

lemma fill_all:
  "0 \<le> i \<Longrightarrow> int (length picked + length (remaining b (nat i) order)) < limit \<Longrightarrow>
   \<exists>r. fill b limit order i picked = Inr r \<and>
       mset r = mset picked + mset (remaining b (nat i) order)"
proof (induction b limit order i picked rule: fill.induct)
  case (1 b limit order i picked)
  let ?n = "nat i"
  let ?rb = "round_block b ?n order"
  from "1.prems" have i: "int ?n = i" by simp
  from "1.prems"(2) have lt: "int (length picked) < limit" by simp
  have sz: "length (remaining b ?n order) = length ?rb + length (remaining b (Suc ?n) order)"
    using remaining_split [of b ?n order, THEN arg_cong, of size] by simp
  with "1.prems"(2) have "int (length picked + length ?rb) < limit" by simp
  from fill_round_all [OF this, of False] i
  have round: "fill_round b limit i order picked False = Completed (picked @ ?rb) (?rb \<noteq> [])"
    by simp
  show ?case
  proof (cases "?rb = []")
    case True
    with round lt have "fill b limit order i picked = Inr (py_take limit picked)"
      by (subst fill.simps) simp
    moreover from lt have "py_take limit picked = picked" by (simp add: py_take_all)
    moreover from True have "remaining b ?n order = []" by (rule round_block_empty)
    ultimately show ?thesis by simp
  next
    case False
    with round lt have step: "fill b limit order i picked = fill b limit order (i + 1) (picked @ ?rb)"
      by (subst fill.simps) simp
    from "1.prems"(1) have n1: "nat (i + 1) = Suc ?n" by simp
    have "\<exists>r. fill b limit order (i + 1) (picked @ ?rb) = Inr r \<and>
        mset r = mset (picked @ ?rb) + mset (remaining b (nat (i + 1)) order)"
    proof (rule "1.IH" [OF lt round])
      show "\<not> \<not> ?rb \<noteq> []" using False by simp
      show "0 \<le> i + 1" using "1.prems"(1) by simp
      show "int (length (picked @ ?rb) + length (remaining b (nat (i + 1)) order)) < limit"
        using "1.prems"(2) sz n1 by simp
    qed
    with step n1 remaining_split [of b ?n order] show ?thesis by auto
  qed
qed

lemma quota_remaining:
  "mset (quota_block b p order) + mset (remaining b p order) =
   mset (concat (map (bucket_of b) order))"
proof (induction order)
  case Nil
  then show ?case by (simp add: quota_block_def remaining_def)
next
  case (Cons s order)
  have "mset (take p (bucket_of b s)) + mset (drop p (bucket_of b s)) = mset (bucket_of b s)"
    by (metis append_take_drop_id mset_append)
  with Cons show ?case by (simp add: quota_block_def remaining_def ac_simps)
qed

lemma mset_partition_by_key:
  "distinct order \<Longrightarrow>
   mset (concat (map (\<lambda>s. filter (\<lambda>a. k a = s) as) order)) =
   mset (filter (\<lambda>a. k a \<in> set order) as)"
proof (induction order)
  case Nil
  then show ?case by simp
next
  case (Cons s order)
  then have IH: "mset (concat (map (\<lambda>s. filter (\<lambda>a. k a = s) as) order)) =
      mset (filter (\<lambda>a. k a \<in> set order) as)" and s: "s \<notin> set order" by simp_all
  have "mset (filter (\<lambda>a. k a \<in> set (s # order)) as) =
        mset (filter (\<lambda>a. k a = s) as) + mset (filter (\<lambda>a. k a \<in> set order) as)"
    using s by (induction as) auto
  with IH show ?case by simp
qed

lemma selection_order_covers:
  assumes "order_covers articles source_order"
  shows "distinct (selection_order (make_buckets articles) source_order) \<and>
         source_key ` set articles \<subseteq> set (selection_order (make_buckets articles) source_order)"
proof -
  have sorted_case: "distinct (sort (map fst (make_buckets articles))) \<and>
      source_key ` set articles \<subseteq> set (sort (map fst (make_buckets articles)))"
    using distinct_keys_make_buckets [of articles] keys_make_buckets [of articles] by simp
  show ?thesis
  proof (cases source_order)
    case None
    with sorted_case show ?thesis by (simp add: selection_order_def)
  next
    case (Some so)
    show ?thesis
    proof (cases "so = []")
      case True
      with Some sorted_case show ?thesis by (simp add: selection_order_def)
    next
      case False
      with Some assms show ?thesis
        by (auto simp: selection_order_def order_covers_def list_all_iff)
    qed
  qed
qed

text \<open>
  C2 (as amended). With fewer candidates than \<open>limit\<close>, a non-negative
  \<open>per_source\<close>, and a source order that is empty or absent or lists every source of
  the candidates without repetition, the selector returns a list with exactly the
  candidates, each as often as it occurs in the input.
\<close>

theorem selector_returns_all_when_short:
  assumes "int (length articles) < limit" and "0 \<le> per_source"
    and "order_covers articles source_order"
  shows "\<exists>res. pick_articles_balanced articles limit per_source source_order = Inr res \<and>
           mset res = mset articles"
proof -
  let ?b = "make_buckets articles"
  let ?o = "selection_order ?b source_order"
  let ?p = "nat per_source"
  from selection_order_covers [OF assms(3)]
  have dist: "distinct ?o" and cov: "source_key ` set articles \<subseteq> set ?o" by simp_all
  have "mset (concat (map (bucket_of ?b) ?o)) =
        mset (filter (\<lambda>a. source_key a \<in> set ?o) articles)"
    using mset_partition_by_key [OF dist, of source_key articles]
    by (simp add: bucket_of_make_buckets [abs_def])
  also have "filter (\<lambda>a. source_key a \<in> set ?o) articles = articles"
    using cov by (auto simp: filter_id_conv)
  finally have all: "mset (quota_block ?b ?p ?o) + mset (remaining ?b ?p ?o) = mset articles"
    by (simp add: quota_remaining)
  then have "length (quota_block ?b ?p ?o) + length (remaining ?b ?p ?o) = length articles"
    by (metis size_mset size_union)
  with assms(1) have len: "int (length (quota_block ?b ?p ?o) + length (remaining ?b ?p ?o)) < limit"
    by simp
  then have "int (length ([] :: article list) + length (quota_block ?b ?p ?o)) < limit" by simp
  from first_pass_all [OF assms(2) this]
  have fp: "first_pass ?b limit per_source ?o [] = Fallthrough (quota_block ?b ?p ?o)" by simp
  from fill_all [OF assms(2), of "quota_block ?b ?p ?o" ?b ?o limit] len
  obtain r where "fill ?b limit ?o per_source (quota_block ?b ?p ?o) = Inr r"
    and "mset r = mset (quota_block ?b ?p ?o) + mset (remaining ?b ?p ?o)" by auto
  with fp all show ?thesis by (simp add: pick_articles_balanced_def Let_def)
qed

theorem selector_returns_all_when_short_witness:
  "int (length two_feeds) < 10 \<and> (0::int) \<le> 2 \<and>
   order_covers two_feeds (Some [''hackernews'', ''lobsters'']) \<and>
   (\<exists>res. pick_articles_balanced two_feeds 10 2 (Some [''hackernews'', ''lobsters'']) = Inr res \<and>
      mset res = mset two_feeds)"
proof -
  have h1: "int (length two_feeds) < 10" by (simp add: two_feeds_def)
  have h2: "(0::int) \<le> 2" by simp
  have h3: "order_covers two_feeds (Some [''hackernews'', ''lobsters''])"
    by (simp add: order_covers_def two_feeds_def item_def source_key_def)
  from selector_returns_all_when_short [OF h1 h2 h3] h1 h2 h3 show ?thesis by blast
qed

text \<open>
  C2 as stated fails for some source orders and quotas: one candidate and \<open>limit = 5\<close>,
  with an order that does not list its source (nothing is returned), with an order that
  lists its source twice (it is returned twice), and with \<open>per_source = -1\<close> (it is
  returned twice).
\<close>

theorem selector_short_counterexample:
  "int (length [item ''lobsters'' ''a'']) < 5 \<and>
   pick_articles_balanced [item ''lobsters'' ''a''] 5 2 (Some [''hackernews'']) = Inr [] \<and>
   pick_articles_balanced [item ''lobsters'' ''a''] 5 2 (Some [''lobsters'', ''lobsters''])
     = Inr [item ''lobsters'' ''a'', item ''lobsters'' ''a''] \<and>
   pick_articles_balanced [item ''lobsters'' ''a''] 5 (- 1) None
     = Inr [item ''lobsters'' ''a'', item ''lobsters'' ''a'']"
  by (simp add: pick_articles_balanced_def make_buckets_def selection_order_def item_def
      source_key_def py_take_def py_index_def fill.simps)

subsection \<open>The example of the specification\<close>

text \<open>
  C3. With the order \<open>["s1", "s2"]\<close>, five articles of \<open>s1\<close>, one of \<open>s2\<close>,
  \<open>per_source = 2\<close> and \<open>limit = 4\<close>, the selector returns the first two of
  \<open>s1\<close>, the one of \<open>s2\<close>, then the third of \<open>s1\<close>, however the articles are
  interleaved in the input.
\<close>

theorem selector_spec_example:
  assumes "filter (\<lambda>a. source_key a = ''s1'') articles = [a0, a1, a2, a3, a4]"
    and "filter (\<lambda>a. source_key a = ''s2'') articles = [b0]"
  shows "pick_articles_balanced articles 4 2 (Some [''s1'', ''s2'']) = Inr [a0, a1, b0, a2]"
proof -
  have m1: "map_of (make_buckets articles) ''s1'' = Some [a0, a1, a2, a3, a4]"
    and m2: "map_of (make_buckets articles) ''s2'' = Some [b0]"
    using assms by (simp_all add: map_of_make_buckets)
  have fp: "first_pass (make_buckets articles) 4 2 [''s1'', ''s2''] [] = Fallthrough [a0, a1, b0]"
    by (simp add: m1 m2 py_take_def)
  have fr: "fill_round (make_buckets articles) 4 2 [''s1'', ''s2''] [a0, a1, b0] False
      = RoundReturned [a0, a1, b0, a2]"
    by (simp add: m1 m2 py_take_def py_index_def)
  have "fill (make_buckets articles) 4 [''s1'', ''s2''] 2 [a0, a1, b0] = Inr [a0, a1, b0, a2]"
    by (subst fill.simps, subst fr, simp)
  with fp show ?thesis
    by (simp add: pick_articles_balanced_def selection_order_def)
qed

theorem selector_spec_example_witness:
  "filter (\<lambda>a. source_key a = ''s1'')
     [item ''s1'' ''a'', item ''s2'' ''x'', item ''s1'' ''b'', item ''s1'' ''c'',
      item ''s1'' ''d'', item ''s1'' ''e'']
     = [item ''s1'' ''a'', item ''s1'' ''b'', item ''s1'' ''c'', item ''s1'' ''d'', item ''s1'' ''e''] \<and>
   filter (\<lambda>a. source_key a = ''s2'')
     [item ''s1'' ''a'', item ''s2'' ''x'', item ''s1'' ''b'', item ''s1'' ''c'',
      item ''s1'' ''d'', item ''s1'' ''e'']
     = [item ''s2'' ''x''] \<and>
   pick_articles_balanced
     [item ''s1'' ''a'', item ''s2'' ''x'', item ''s1'' ''b'', item ''s1'' ''c'',
      item ''s1'' ''d'', item ''s1'' ''e''] 4 2 (Some [''s1'', ''s2''])
     = Inr [item ''s1'' ''a'', item ''s1'' ''b'', item ''s2'' ''x'', item ''s1'' ''c'']"
proof -
  let ?xs = "[item ''s1'' ''a'', item ''s2'' ''x'', item ''s1'' ''b'', item ''s1'' ''c'',
      item ''s1'' ''d'', item ''s1'' ''e'']"
  have h1: "filter (\<lambda>a. source_key a = ''s1'') ?xs
     = [item ''s1'' ''a'', item ''s1'' ''b'', item ''s1'' ''c'', item ''s1'' ''d'', item ''s1'' ''e'']"
    by (simp add: item_def source_key_def)
  have h2: "filter (\<lambda>a. source_key a = ''s2'') ?xs = [item ''s2'' ''x'']"
    by (simp add: item_def source_key_def)
  from selector_spec_example [OF h1 h2] h1 h2 show ?thesis by blast
qed

subsection \<open>Category classifier\<close>

lemma categories_distinct: "distinct CATEGORIES"
  by (simp add: CATEGORIES_def cat_ai_def cat_games_def cat_tools_def cat_infra_def cat_misc_def)

lemma contains_iff: "contains k t \<longleftrightarrow> (\<exists>pre post. t = pre @ k @ post)"
proof (induction t)
  case Nil
  then show ?case by auto
next
  case (Cons c t)
  show ?case
  proof
    assume "contains k (c # t)"
    then consider "prefix k (c # t)" | "contains k t" by auto
    then show "\<exists>pre post. c # t = pre @ k @ post"
    proof cases
      case 1
      then obtain post where "c # t = k @ post" by (auto simp: prefix_def)
      then have "c # t = [] @ k @ post" by simp
      then show ?thesis by blast
    next
      case 2
      with Cons obtain pre post where "t = pre @ k @ post" by blast
      then have "c # t = (c # pre) @ k @ post" by simp
      then show ?thesis by blast
    qed
  next
    assume "\<exists>pre post. c # t = pre @ k @ post"
    then obtain pre post where e: "c # t = pre @ k @ post" by blast
    show "contains k (c # t)"
    proof (cases pre)
      case Nil
      with e have "prefix k (c # t)" by (simp add: prefix_def)
      then show ?thesis by simp
    next
      case (Cons d pre')
      with e have "t = pre' @ k @ post" by simp
      with Cons.IH have "contains k t" by blast
      then show ?thesis by simp
    qed
  qed
qed

lemma contains_map:
  "contains k (map f t) \<longleftrightarrow> (\<exists>pre u post. t = pre @ u @ post \<and> map f u = k)"
proof
  assume "contains k (map f t)"
  then obtain a b where "map f t = a @ k @ b" unfolding contains_iff by blast
  from this [unfolded map_eq_append_conv]
  obtain pre r where t: "t = pre @ r" and r: "k @ b = map f r" by blast
  from r [symmetric, unfolded map_eq_append_conv]
  obtain u post where "r = u @ post" and "k = map f u" by blast
  with t have "t = pre @ u @ post \<and> map f u = k" by simp
  then show "\<exists>pre u post. t = pre @ u @ post \<and> map f u = k" by blast
next
  assume "\<exists>pre u post. t = pre @ u @ post \<and> map f u = k"
  then obtain pre u post where "t = pre @ u @ post" and "map f u = k" by blast
  then have "map f t = map f pre @ k @ map f post" by simp
  then show "contains k (map f t)" unfolding contains_iff by blast
qed

lemma lower_from_ascii:
  "list_all is_ascii u \<Longrightarrow>
   lower_from lo before (u @ s) = map lower_char u @ lower_from lo (before @ u) s"
  by (induction u arbitrary: before) simp_all

lemma lower_from_split:
  "\<exists>x. lower_from lo before (pre @ s) = x @ lower_from lo (before @ pre) s"
proof (induction pre arbitrary: before)
  case Nil
  then show ?case by simp
next
  case (Cons c pre)
  from Cons [of "before @ [c]"] obtain x
    where "lower_from lo (before @ [c]) (pre @ s) = x @ lower_from lo (before @ c # pre) s"
    by auto
  then show ?case by simp
qed

lemma py_lower_ascii: "list_all is_ascii t \<Longrightarrow> py_lower lo t = map lower_char t"
  using lower_from_ascii [of t lo "[]" "[]"] by (simp add: py_lower_def)

lemma py_lower_occurrence:
  assumes "list_all is_ascii u"
  shows "contains (map lower_char u) (py_lower lo (pre @ u @ post))"
proof -
  from lower_from_split [of lo "[]" pre "u @ post"] obtain x
    where "py_lower lo (pre @ u @ post) = x @ lower_from lo pre (u @ post)"
    by (auto simp: py_lower_def)
  with lower_from_ascii [OF assms, of lo pre post]
  have "py_lower lo (pre @ u @ post) = x @ map lower_char u @ lower_from lo (pre @ u) post"
    by simp
  then show ?thesis unfolding contains_iff by blast
qed

lemma categorize_lowered:
  "py_lower lo t = py_lower lo' t' \<Longrightarrow> categorize lo t = categorize lo' t'"
  by (simp add: categorize_def)

text \<open>
  C7. For every title and every Unicode case table: \<open>categorize\<close> is the first-match
  lookup in the ordered keyword table on the lower-cased title with the catch-all as
  default, and its value is one of the five categories. Matching ignores the case of
  ASCII letters: a stretch of ASCII text of the title that equals a keyword up to case
  is found wherever it stands; in an ASCII title nothing else is found; and two ASCII
  titles that differ only in case get the same category. The empty title gets the
  catch-all, \<open>"New LLM model released"\<close> gets the AI category in either case, and
  a title with keywords of two categories gets the one of higher priority.
\<close>

theorem categorize_total_first_match:
  "categorize lo title_text = classify_spec lo title_text \<and>
   categorize lo title_text \<in> set CATEGORIES \<and>
   (list_all is_ascii u \<longrightarrow>
      contains (map lower_char u) (py_lower lo (pre @ u @ post))) \<and>
   (list_all is_ascii t \<longrightarrow>
      contains k (py_lower lo t) = (\<exists>pre u post. t = pre @ u @ post \<and> map lower_char u = k)) \<and>
   (list_all is_ascii t \<longrightarrow> list_all is_ascii t' \<longrightarrow> map lower_char t = map lower_char t'
      \<longrightarrow> categorize lo t = categorize lo t') \<and>
   categorize lo [] = cat_misc \<and>
   categorize lo ''New LLM model released'' = cat_ai \<and>
   categorize lo ''NEW LLM MODEL RELEASED'' = cat_ai \<and>
   categorize lo ''Rust Game Engine'' = cat_games"
proof (intro conjI impI)
  show "categorize lo title_text = classify_spec lo title_text"
    by (simp add: categorize_def classify_spec_def category_table_def Let_def)
  show "categorize lo title_text \<in> set CATEGORIES"
    by (simp add: categorize_def CATEGORIES_def Let_def)
  show "contains (map lower_char u) (py_lower lo (pre @ u @ post))" if "list_all is_ascii u"
    using that by (rule py_lower_occurrence)
  show "contains k (py_lower lo t) = (\<exists>pre u post. t = pre @ u @ post \<and> map lower_char u = k)"
    if "list_all is_ascii t"
  proof -
    from that show ?thesis by (simp add: py_lower_ascii contains_map)
  qed
  show "categorize lo t = categorize lo t'"
    if "list_all is_ascii t" "list_all is_ascii t'" "map lower_char t = map lower_char t'"
    using that by (intro categorize_lowered) (simp add: py_lower_ascii)
  show "categorize lo [] = cat_misc"
    by (simp add: categorize_def py_lower_def)
  show "categorize lo ''New LLM model released'' = cat_ai"
    by (simp add: categorize_def py_lower_def lower_char_def is_ascii_def)
  show "categorize lo ''NEW LLM MODEL RELEASED'' = cat_ai"
    by (simp add: categorize_def py_lower_def lower_char_def is_ascii_def)
  show "categorize lo ''Rust Game Engine'' = cat_games"
    by (simp add: categorize_def py_lower_def lower_char_def is_ascii_def)
qed

theorem categorize_total_first_match_witness:
  "list_all is_ascii ''GPT'' \<and>
   contains (map lower_char ''GPT'') (py_lower kelvin_table (kelvin_title @ ''GPT'' @ '' news'')) \<and>
   list_all is_ascii ''OpenAI ships Docker'' \<and>
   contains ''docker'' (py_lower no_case ''OpenAI ships Docker'') \<and>
   list_all is_ascii ''KUBERNETES 1.40'' \<and> list_all is_ascii ''Kubernetes 1.40'' \<and>
   map lower_char ''KUBERNETES 1.40'' = map lower_char ''Kubernetes 1.40'' \<and>
   categorize no_case ''KUBERNETES 1.40'' = categorize no_case ''Kubernetes 1.40'' \<and>
   categorize no_case ''Kubernetes 1.40'' = cat_infra \<and>
   categorize kelvin_table kelvin_title = cat_infra \<and>
   categorize no_case kelvin_title = cat_misc"
proof -
  note thm1 = categorize_total_first_match [of kelvin_table "[]" "''GPT''" kelvin_title "'' news''"
      "[]" "[]" "[]"]
  note thm2 = categorize_total_first_match [of no_case "[]" "[]" "[]" "[]"
      "''OpenAI ships Docker''" "''docker''" "[]"]
  note thm3 = categorize_total_first_match [of no_case "[]" "[]" "[]" "[]"
      "''KUBERNETES 1.40''" "[]" "''Kubernetes 1.40''"]
  have a1: "list_all is_ascii ''GPT''" by (simp add: is_ascii_def)
  have a2: "list_all is_ascii ''OpenAI ships Docker''" by (simp add: is_ascii_def)
  have a3: "list_all is_ascii ''KUBERNETES 1.40''" and a4: "list_all is_ascii ''Kubernetes 1.40''"
    by (simp_all add: is_ascii_def)
  have m: "map lower_char ''KUBERNETES 1.40'' = map lower_char ''Kubernetes 1.40''"
    by (simp add: lower_char_def)
  have d: "\<exists>pre u post. ''OpenAI ships Docker'' = pre @ u @ post \<and> map lower_char u = ''docker''"
  proof (intro exI conjI)
    show "''OpenAI ships Docker'' = ''OpenAI ships '' @ ''Docker'' @ []" by simp
    show "map lower_char ''Docker'' = ''docker''" by (simp add: lower_char_def)
  qed
  have c1: "contains (map lower_char ''GPT'')
      (py_lower kelvin_table (kelvin_title @ ''GPT'' @ '' news''))"
    using thm1 [THEN conjunct2, THEN conjunct2, THEN conjunct1] a1 by (rule mp)
  have "contains ''docker'' (py_lower no_case ''OpenAI ships Docker'') =
      (\<exists>pre u post. ''OpenAI ships Docker'' = pre @ u @ post \<and> map lower_char u = ''docker'')"
    using thm2 [THEN conjunct2, THEN conjunct2, THEN conjunct2, THEN conjunct1] a2 by (rule mp)
  with d have c2: "contains ''docker'' (py_lower no_case ''OpenAI ships Docker'')"
    by (rule_tac iffD2)
  have c3: "categorize no_case ''KUBERNETES 1.40'' = categorize no_case ''Kubernetes 1.40''"
    using thm3 [THEN conjunct2, THEN conjunct2, THEN conjunct2, THEN conjunct2, THEN conjunct1,
        THEN mp, OF a3, THEN mp, OF a4] m by (rule mp)
  have c4: "categorize no_case ''Kubernetes 1.40'' = cat_infra"
    by (simp add: categorize_def py_lower_def lower_char_def is_ascii_def)
  have c5: "categorize kelvin_table kelvin_title = cat_infra"
    by (simp add: categorize_def py_lower_def lower_char_def is_ascii_def kelvin_title_def
        kelvin_table_def)
  have c6: "categorize no_case kelvin_title = cat_misc"
    by (simp add: categorize_def py_lower_def lower_char_def is_ascii_def kelvin_title_def
        no_case_def)
  show ?thesis
    by (intro conjI) (rule a1 c1 a2 c2 a3 a4 m c3 c4 c5 c6)+
qed

subsection \<open>Backend failures\<close>

lemma translate_with_llm_returns:
  "\<exists>r n'. translate_with_llm env minimax openai n t d s = (Inr r, n')"
  by (auto simp: translate_with_llm_def split: prod.splits sum.splits)

lemma client_counts_call:
  "has_api_key env \<Longrightarrow>
   snd (translate_title_and_summary env minimax openai n t d s) = Suc n"
  by (auto simp: translate_title_and_summary_def has_api_key_def Let_def split: sum.splits)

text \<open>
  C1 (as amended). An exception of the backend call leaves the translation client
  \<open>translate_title_and_summary\<close>: wrapped in a \<open>RuntimeError\<close> for Minimax, unchanged
  for OpenAI. \<open>translate_with_llm\<close> catches it and returns the template, so the
  template is produced both when no key is configured and when the call of a configured
  backend fails; \<open>translate_with_llm\<close> itself never raises.
\<close>

theorem backend_failure_handling:
  "(py_strip (getenv (ANTHROPIC_API_KEY env)) \<noteq> [] \<longrightarrow>
      minimax n t (py_strip (or_else d [])) (or_else s []) = Inl e \<longrightarrow>
      translate_title_and_summary env minimax openai n t d s =
        (Inl (RuntimeError (''Minimax translation failed: '' @ exn_msg e)), Suc n)) \<and>
   (py_strip (getenv (ANTHROPIC_API_KEY env)) = [] \<longrightarrow>
      py_strip (getenv (OPENAI_API_KEY env)) \<noteq> [] \<longrightarrow>
      openai n t (py_strip (or_else d [])) (or_else s []) = Inl e \<longrightarrow>
      translate_title_and_summary env minimax openai n t d s = (Inl e, Suc n)) \<and>
   (has_api_key env \<longrightarrow>
      fst (translate_title_and_summary env minimax openai n t (Some (or_else d [])) s) = Inl e \<longrightarrow>
      translate_with_llm env minimax openai n t d s = (Inr (fallback_template t s), Suc n)) \<and>
   (\<not> has_api_key env \<longrightarrow>
      translate_with_llm env minimax openai n t d s = (Inr (fallback_template t s), n)) \<and>
   (\<exists>r n'. translate_with_llm env minimax openai n t d s = (Inr r, n'))"
proof (intro conjI impI)
  assume "py_strip (getenv (ANTHROPIC_API_KEY env)) \<noteq> []"
    and "minimax n t (py_strip (or_else d [])) (or_else s []) = Inl e"
  then show "translate_title_and_summary env minimax openai n t d s =
        (Inl (RuntimeError (''Minimax translation failed: '' @ exn_msg e)), Suc n)"
    by (simp add: translate_title_and_summary_def Let_def)
next
  assume "py_strip (getenv (ANTHROPIC_API_KEY env)) = []"
    and "py_strip (getenv (OPENAI_API_KEY env)) \<noteq> []"
    and "openai n t (py_strip (or_else d [])) (or_else s []) = Inl e"
  then show "translate_title_and_summary env minimax openai n t d s = (Inl e, Suc n)"
    by (simp add: translate_title_and_summary_def Let_def)
next
  assume k: "has_api_key env"
    and f: "fst (translate_title_and_summary env minimax openai n t (Some (or_else d [])) s) = Inl e"
  from client_counts_call [OF k, of minimax openai n t "Some (or_else d [])" s] f
  have "translate_title_and_summary env minimax openai n t (Some (or_else d [])) s = (Inl e, Suc n)"
    by (metis prod.collapse)
  with k show "translate_with_llm env minimax openai n t d s = (Inr (fallback_template t s), Suc n)"
    by (simp add: translate_with_llm_def)
next
  assume "\<not> has_api_key env"
  then show "translate_with_llm env minimax openai n t d s = (Inr (fallback_template t s), n)"
    by (simp add: translate_with_llm_def)
next
  show "\<exists>r n'. translate_with_llm env minimax openai n t d s = (Inr r, n')"
    by (rule translate_with_llm_returns)
qed

lemma has_key_minimax: "has_api_key env_minimax"
  by (simp add: has_api_key_def env_minimax_def getenv_def py_strip_def is_space_def)

lemma has_key_openai: "has_api_key env_openai"
  by (simp add: has_api_key_def env_openai_def getenv_def py_strip_def is_space_def)

lemma no_key_none: "\<not> has_api_key env_none"
  by (simp add: has_api_key_def env_none_def getenv_def py_strip_def is_space_def)

text \<open>
  C1 as stated fails: with a Minimax key set and a backend whose call times out, the
  client raises, and \<open>translate_with_llm\<close> returns the template pair.
\<close>

theorem backend_failure_swallowed_counterexample:
  "has_api_key env_minimax \<and>
   fst (translate_title_and_summary env_minimax failing_backend echo_backend 0
          ''Rust 2.0'' (Some []) (Some ''Hacker News''))
     = Inl (RuntimeError ''Minimax translation failed: timed out'') \<and>
   translate_with_llm env_minimax failing_backend echo_backend 0
       ''Rust 2.0'' None (Some ''Hacker News'')
     = (Inr (''Rust 2.0'', zh_from @ ''Hacker News'' @ zh_hot_topics @ zh_points), 1)"
  by (simp add: has_api_key_def translate_with_llm_def translate_title_and_summary_def
      failing_backend_def fallback_template_def or_else_def env_minimax_def getenv_def
      py_strip_def is_space_def Let_def)

theorem backend_failure_handling_witness:
  "py_strip (getenv (ANTHROPIC_API_KEY env_minimax)) \<noteq> [] \<and>
   failing_backend 0 ''Rust 2.0'' (py_strip (or_else None [])) (or_else (Some ''Hacker News'') [])
     = Inl (Exn ''URLError'' ''timed out'') \<and>
   translate_title_and_summary env_minimax failing_backend echo_backend 0 ''Rust 2.0'' None
       (Some ''Hacker News'')
     = (Inl (RuntimeError (''Minimax translation failed: '' @ ''timed out'')), Suc 0) \<and>
   py_strip (getenv (ANTHROPIC_API_KEY env_openai)) = [] \<and>
   py_strip (getenv (OPENAI_API_KEY env_openai)) \<noteq> [] \<and>
   translate_title_and_summary env_openai echo_backend failing_backend 0 ''Rust 2.0'' None
       (Some ''Hacker News'')
     = (Inl (Exn ''URLError'' ''timed out''), Suc 0) \<and>
   has_api_key env_minimax \<and>
   translate_with_llm env_minimax failing_backend echo_backend 0 ''Rust 2.0'' None
       (Some ''Hacker News'')
     = (Inr (fallback_template ''Rust 2.0'' (Some ''Hacker News'')), Suc 0) \<and>
   \<not> has_api_key env_none \<and>
   translate_with_llm env_none failing_backend echo_backend 0 ''Rust 2.0'' None
       (Some ''Hacker News'')
     = (Inr (fallback_template ''Rust 2.0'' (Some ''Hacker News'')), 0)"
proof -
  have a: "py_strip (getenv (ANTHROPIC_API_KEY env_minimax)) \<noteq> []"
    by (simp add: env_minimax_def getenv_def py_strip_def is_space_def)
  have f: "failing_backend 0 ''Rust 2.0'' (py_strip (or_else None []))
      (or_else (Some ''Hacker News'') []) = Inl (Exn ''URLError'' ''timed out'')"
    by (simp add: failing_backend_def)
  have b: "py_strip (getenv (ANTHROPIC_API_KEY env_openai)) = []"
    and c: "py_strip (getenv (OPENAI_API_KEY env_openai)) \<noteq> []"
    by (simp_all add: env_openai_def getenv_def py_strip_def is_space_def)
  have g: "fst (translate_title_and_summary env_minimax failing_backend echo_backend 0
      ''Rust 2.0'' (Some (or_else None [])) (Some ''Hacker News''))
      = Inl (RuntimeError ''Minimax translation failed: timed out'')"
    by (simp add: translate_title_and_summary_def failing_backend_def env_minimax_def
        getenv_def py_strip_def is_space_def or_else_def Let_def)
  note t1 = backend_failure_handling [of env_minimax failing_backend 0 "''Rust 2.0''" None
      "Some ''Hacker News''" "Exn ''URLError'' ''timed out''" echo_backend]
  note t2 = backend_failure_handling [of env_openai echo_backend 0 "''Rust 2.0''" None
      "Some ''Hacker News''" "Exn ''URLError'' ''timed out''" failing_backend]
  note t3 = backend_failure_handling [of env_minimax failing_backend 0 "''Rust 2.0''" None
      "Some ''Hacker News''" "RuntimeError ''Minimax translation failed: timed out''" echo_backend]
  note t4 = backend_failure_handling [of env_none failing_backend 0 "''Rust 2.0''" None
      "Some ''Hacker News''" "Exn ''URLError'' ''timed out''" echo_backend]
  from t1 a f have c1: "translate_title_and_summary env_minimax failing_backend echo_backend 0
      ''Rust 2.0'' None (Some ''Hacker News'')
     = (Inl (RuntimeError (''Minimax translation failed: '' @ ''timed out'')), Suc 0)"
    by simp
  from t2 b c f have c2: "translate_title_and_summary env_openai echo_backend failing_backend 0
      ''Rust 2.0'' None (Some ''Hacker News'') = (Inl (Exn ''URLError'' ''timed out''), Suc 0)"
    by simp
  from t3 has_key_minimax g have c3: "translate_with_llm env_minimax failing_backend echo_backend 0
      ''Rust 2.0'' None (Some ''Hacker News'')
     = (Inr (fallback_template ''Rust 2.0'' (Some ''Hacker News'')), Suc 0)"
    by blast
  from t4 no_key_none have c4: "translate_with_llm env_none failing_backend echo_backend 0
      ''Rust 2.0'' None (Some ''Hacker News'')
     = (Inr (fallback_template ''Rust 2.0'' (Some ''Hacker News'')), 0)"
    by blast
  from a f b c c1 c2 c3 c4 has_key_minimax no_key_none show ?thesis by blast
qed

subsection \<open>Translation cache\<close>

lemma key_a: "cache_key (item ''hackernews'' ''a'') = Some ''https://example.org/a''"
  by (simp add: cache_key_def item_def or_else_def)

lemma key_b: "cache_key (item ''hackernews'' ''b'') = Some ''https://example.org/b''"
  by (simp add: cache_key_def item_def or_else_def)

lemma key_a_changed:
  "cache_key ((item ''hackernews'' ''a'')\<lparr>title := Some ''rewritten'', description := Some ''new''\<rparr>)
     = Some ''https://example.org/a''"
  by (simp add: cache_key_def item_def or_else_def)

lemma key_cut: "cache_key cut_title = Some ''https://example.org/b''"
  by (simp add: cache_key_def cut_title_def or_else_def)

lemma template_hn_encodable: "\<not> has_surrogate template_hn"
  by (simp add: template_hn_def zh_from_def zh_hot_topics_def zh_points_def
      zh_points_heading_def zh_placeholder_def)

lemma run_two:
  "translate_selected env_none failing_backend failing_backend
       \<lparr>cache = read_cache (Some old_cache), calls = 0\<rparr>
       [item ''hackernews'' ''a'', item ''hackernews'' ''b'']
     = Inr ([(item ''hackernews'' ''a'')\<lparr>zh_title := Some ''cached title'',
                zh_summary := Some ''cached summary''\<rparr>,
             (item ''hackernews'' ''b'')\<lparr>zh_title := Some ''b'', zh_summary := Some template_hn\<rparr>],
            \<lparr>cache = old_cache @ [(''https://example.org/b'', (Some ''b'', Some template_hn))],
               calls = 0\<rparr>)"
proof -
  have t: "translate_with_llm env_none failing_backend failing_backend 0 ''b'' None
      (Some ''hackernews'') = (Inr (''b'', template_hn), 0)"
    using no_key_none by (simp add: translate_with_llm_def fallback_template_def or_else_def
        template_hn_def Let_def)
  have a: "translate_article env_none failing_backend failing_backend
      \<lparr>cache = old_cache, calls = 0\<rparr> (item ''hackernews'' ''a'')
      = Inr ((item ''hackernews'' ''a'')\<lparr>zh_title := Some ''cached title'',
                zh_summary := Some ''cached summary''\<rparr>, \<lparr>cache = old_cache, calls = 0\<rparr>)"
    by (simp add: translate_article_def key_a) (simp add: old_cache_def)
  have b: "translate_article env_none failing_backend failing_backend
      \<lparr>cache = old_cache, calls = 0\<rparr> (item ''hackernews'' ''b'')
      = Inr ((item ''hackernews'' ''b'')\<lparr>zh_title := Some ''b'', zh_summary := Some template_hn\<rparr>,
             \<lparr>cache = old_cache @ [(''https://example.org/b'', (Some ''b'', Some template_hn))],
                calls = 0\<rparr>)"
  proof -
    have m: "map_of old_cache ''https://example.org/b'' = None" by (simp add: old_cache_def)
    have f: "title (item ''hackernews'' ''b'') = Some ''b''"
      "description (item ''hackernews'' ''b'') = None"
      "source_name (item ''hackernews'' ''b'') = Some ''hackernews''"
      by (simp_all add: item_def)
    show ?thesis by (simp add: translate_article_def key_b m f t)
  qed
  show ?thesis by (simp add: read_cache_def a b)
qed

lemma translate_article_returns:
  "\<exists>a' st'. translate_article env minimax openai st a = Inr (a', st')"
proof (cases "cache_key a")
  case None
  then show ?thesis by (simp add: translate_article_def)
next
  case (Some key)
  show ?thesis
  proof (cases "map_of (cache st) key")
    case (Some entry)
    with \<open>cache_key a = Some key\<close> show ?thesis by (simp add: translate_article_def)
  next
    case None
    from translate_with_llm_returns
    obtain r n' where "translate_with_llm env minimax openai (calls st)
        (case title a of None \<Rightarrow> [] | Some t \<Rightarrow> t) (description a) (source_name a) = (Inr r, n')"
      by blast
    with None \<open>cache_key a = Some key\<close> show ?thesis
      by (cases r) (simp add: translate_article_def)
  qed
qed

lemma translate_selected_returns:
  "\<exists>xs' st'. translate_selected env minimax openai st xs = Inr (xs', st')"
proof (induction xs arbitrary: st)
  case Nil
  then show ?case by simp
next
  case (Cons a xs)
  from translate_article_returns obtain a' st1
    where a: "translate_article env minimax openai st a = Inr (a', st1)" by blast
  from Cons.IH obtain xs' st2
    where "translate_selected env minimax openai st1 xs = Inr (xs', st2)" by blast
  with a show ?case by simp
qed

lemma translate_article_cache_keeps:
  "translate_article env minimax openai st a = Inr (a', st') \<Longrightarrow> map_of (cache st) k = Some v
     \<Longrightarrow> map_of (cache st') k = Some v"
  by (auto simp: translate_article_def split: option.splits prod.splits sum.splits)

lemma translate_article_cache_new:
  "translate_article env minimax openai st a = Inr (a', st') \<Longrightarrow> map_of (cache st) k = None
     \<Longrightarrow> map_of (cache st') k \<noteq> None \<Longrightarrow> cache_key a = Some k"
  by (auto simp: translate_article_def split: option.splits prod.splits sum.splits if_splits)

lemma translate_selected_Cons:
  "translate_selected env minimax openai st (a # xs) = Inr (ys, st') \<Longrightarrow>
   \<exists>a' st1 xs'. translate_article env minimax openai st a = Inr (a', st1) \<and>
      translate_selected env minimax openai st1 xs = Inr (xs', st') \<and> ys = a' # xs'"
  by (auto split: sum.splits prod.splits)

lemma translate_selected_cache_keeps:
  "translate_selected env minimax openai st xs = Inr (xs', st') \<Longrightarrow> map_of (cache st) k = Some v
     \<Longrightarrow> map_of (cache st') k = Some v"
proof (induction xs arbitrary: st xs')
  case Nil
  then show ?case by simp
next
  case (Cons a xs)
  from translate_selected_Cons [OF Cons.prems(1)] obtain a' st1 ys
    where a: "translate_article env minimax openai st a = Inr (a', st1)"
      and r: "translate_selected env minimax openai st1 xs = Inr (ys, st')" by blast
  from translate_article_cache_keeps [OF a Cons.prems(2)] have "map_of (cache st1) k = Some v" .
  with r show ?case by (rule Cons.IH)
qed

lemma translate_selected_cache_new:
  "translate_selected env minimax openai st xs = Inr (xs', st') \<Longrightarrow> map_of (cache st) k = None
     \<Longrightarrow> map_of (cache st') k \<noteq> None \<Longrightarrow> Some k \<in> cache_key ` set xs"
proof (induction xs arbitrary: st xs')
  case Nil
  then show ?case by simp
next
  case (Cons a xs)
  from translate_selected_Cons [OF Cons.prems(1)] obtain a' st1 ys
    where a: "translate_article env minimax openai st a = Inr (a', st1)"
      and r: "translate_selected env minimax openai st1 xs = Inr (ys, st')" by blast
  show ?case
  proof (cases "map_of (cache st1) k")
    case None
    from Cons.IH [OF r None Cons.prems(3)] show ?thesis by simp
  next
    case (Some v)
    with translate_article_cache_new [OF a Cons.prems(2)] have "cache_key a = Some k" by simp
    then show ?thesis by (simp add: image_iff)
  qed
qed

lemma translate_cached_written:
  "translate_selected env minimax openai \<lparr>cache = read_cache disk, calls = n\<rparr> articles
     = Inr (articles', st) \<Longrightarrow> cache_writable (cache st) \<Longrightarrow>
   translate_cached env minimax openai disk n articles = (Inr articles', Some (cache st), calls st)"
  by (simp add: translate_cached_def write_cache_def)

lemma translate_cached_refused:
  "translate_selected env minimax openai \<lparr>cache = read_cache disk, calls = n\<rparr> articles
     = Inr (articles', st) \<Longrightarrow> \<not> cache_writable (cache st) \<Longrightarrow>
   translate_cached env minimax openai disk n articles = (Inl UnicodeEncodeError, None, calls st)"
  by (simp add: translate_cached_def write_cache_def)




lemma translate_article_hit:
  "cache_key a = Some k \<Longrightarrow> map_of (cache st) k = Some (t, s) \<Longrightarrow>
   translate_article env minimax openai st a = Inr (a\<lparr>zh_title := t, zh_summary := s\<rparr>, st)"
  by (simp add: translate_article_def)

lemma translate_article_stores:
  "cache_key a = Some k \<Longrightarrow> translate_article env minimax openai st a = Inr (a', st') \<Longrightarrow>
   map_of (cache st') k = Some (zh_title a', zh_summary a')"
  by (auto simp: translate_article_def map_add_def split: option.splits prod.splits sum.splits)

text \<open>
  C6. Once an article with key \<open>k\<close> has been resolved, any article with the same key,
  whatever its title and description, gets the pair of the first resolution and leaves
  the state (the cache and the number of backend calls) unchanged: later in the same
  run, and in a later run that starts from the persisted cache, with any environment
  and backends.
\<close>

theorem cache_idempotent:
  assumes "cache_key a = Some k" and "cache_key b = Some k"
    and first: "translate_article env minimax openai st0 a = Inr (a', st1)"
    and run: "translate_selected env minimax openai st1 mid = Inr (mid', st2)"
  shows "translate_article env minimax openai st2 b =
           Inr (b\<lparr>zh_title := zh_title a', zh_summary := zh_summary a'\<rparr>, st2) \<and>
         (\<forall>pre pre' st3.
            translate_selected env2 minimax2 openai2
              \<lparr>cache = read_cache (Some (cache st2)), calls = n\<rparr> pre = Inr (pre', st3) \<longrightarrow>
            translate_article env2 minimax2 openai2 st3 b =
              Inr (b\<lparr>zh_title := zh_title a', zh_summary := zh_summary a'\<rparr>, st3))"
proof -
  from translate_article_stores [OF assms(1) first]
  have "map_of (cache st1) k = Some (zh_title a', zh_summary a')" .
  from translate_selected_cache_keeps [OF run this]
  have c2: "map_of (cache st2) k = Some (zh_title a', zh_summary a')" .
  have same: "translate_article env minimax openai st2 b =
      Inr (b\<lparr>zh_title := zh_title a', zh_summary := zh_summary a'\<rparr>, st2)"
    using assms(2) c2 by (rule translate_article_hit)
  have later: "translate_article env2 minimax2 openai2 st3 b =
      Inr (b\<lparr>zh_title := zh_title a', zh_summary := zh_summary a'\<rparr>, st3)"
    if "translate_selected env2 minimax2 openai2
          \<lparr>cache = read_cache (Some (cache st2)), calls = n\<rparr> pre = Inr (pre', st3)"
    for pre pre' st3
  proof -
    have "map_of (cache \<lparr>cache = read_cache (Some (cache st2)), calls = n\<rparr>) k
        = Some (zh_title a', zh_summary a')"
      using c2 by (simp add: read_cache_def)
    from translate_selected_cache_keeps [OF that this]
    have "map_of (cache st3) k = Some (zh_title a', zh_summary a')" .
    with assms(2) show ?thesis by (rule translate_article_hit)
  qed
  from same later show ?thesis by blast
qed

theorem cache_idempotent_witness:
  "cache_key (item ''hackernews'' ''a'') = Some ''https://example.org/a'' \<and>
   cache_key ((item ''hackernews'' ''a'')\<lparr>title := Some ''rewritten'', description := Some ''new''\<rparr>)
     = Some ''https://example.org/a'' \<and>
   translate_article env_minimax echo_backend failing_backend fresh_state (item ''hackernews'' ''a'')
     = Inr ((item ''hackernews'' ''a'')\<lparr>zh_title := Some ''zh:a'', zh_summary := Some ''call ''\<rparr>,
            \<lparr>cache = [(''https://example.org/a'', (Some ''zh:a'', Some ''call ''))], calls = 1\<rparr>) \<and>
   translate_selected env_minimax echo_backend failing_backend
       \<lparr>cache = [(''https://example.org/a'', (Some ''zh:a'', Some ''call ''))], calls = 1\<rparr> []
     = Inr ([], \<lparr>cache = [(''https://example.org/a'', (Some ''zh:a'', Some ''call ''))], calls = 1\<rparr>) \<and>
   translate_article env_minimax echo_backend failing_backend
       \<lparr>cache = [(''https://example.org/a'', (Some ''zh:a'', Some ''call ''))], calls = 1\<rparr>
       ((item ''hackernews'' ''a'')\<lparr>title := Some ''rewritten'', description := Some ''new''\<rparr>)
     = Inr ((item ''hackernews'' ''a'')\<lparr>title := Some ''rewritten'', description := Some ''new'',
              zh_title := Some ''zh:a'', zh_summary := Some ''call ''\<rparr>,
            \<lparr>cache = [(''https://example.org/a'', (Some ''zh:a'', Some ''call ''))], calls = 1\<rparr>)"
proof -
  let ?st1 = "\<lparr>cache = [(''https://example.org/a'', (Some ''zh:a'', Some ''call ''))], calls = 1\<rparr>"
  let ?a' = "(item ''hackernews'' ''a'')\<lparr>zh_title := Some ''zh:a'', zh_summary := Some ''call ''\<rparr>"
  let ?b = "(item ''hackernews'' ''a'')\<lparr>title := Some ''rewritten'', description := Some ''new''\<rparr>"
  have first: "translate_article env_minimax echo_backend failing_backend fresh_state
      (item ''hackernews'' ''a'') = Inr (?a', ?st1)"
    by (simp add: translate_article_def key_a fresh_state_def translate_with_llm_def
        translate_title_and_summary_def has_api_key_def env_minimax_def getenv_def py_strip_def
        is_space_def echo_backend_def or_else_def Let_def)
       (simp add: item_def)
  have run: "translate_selected env_minimax echo_backend failing_backend ?st1 [] = Inr ([], ?st1)"
    by simp
  from cache_idempotent [OF key_a key_a_changed first run]
  have "translate_article env_minimax echo_backend failing_backend ?st1 ?b =
      Inr (?b\<lparr>zh_title := zh_title ?a', zh_summary := zh_summary ?a'\<rparr>, ?st1)"
    by (rule conjunct1)
  then have "translate_article env_minimax echo_backend failing_backend ?st1 ?b =
      Inr (?b\<lparr>zh_title := Some ''zh:a'', zh_summary := Some ''call ''\<rparr>, ?st1)"
    by simp
  with key_a key_a_changed first run show ?thesis by simp
qed

lemma translate_selected_append:
  "translate_selected env minimax openai st xs = Inr (xs', st1) \<Longrightarrow>
   translate_selected env minimax openai st1 ys = Inr (ys', st2) \<Longrightarrow>
   translate_selected env minimax openai st (xs @ ys) = Inr (xs' @ ys', st2)"
proof (induction xs arbitrary: st xs')
  case Nil
  then show ?case by simp
next
  case (Cons a xs)
  from translate_selected_Cons [OF Cons.prems(1)] obtain a' sta zs
    where a: "translate_article env minimax openai st a = Inr (a', sta)"
      and r: "translate_selected env minimax openai sta xs = Inr (zs, st1)"
      and e: "xs' = a' # zs" by blast
  from Cons.IH [OF r Cons.prems(2)] a e show ?case by simp
qed

lemma translate_selected_length:
  "translate_selected env minimax openai st xs = Inr (xs', st') \<Longrightarrow> length xs' = length xs"
proof (induction xs arbitrary: st xs')
  case Nil
  then show ?case by simp
next
  case (Cons a xs)
  from translate_selected_Cons [OF Cons.prems] obtain a' sta zs
    where r: "translate_selected env minimax openai sta xs = Inr (zs, st')"
      and e: "xs' = a' # zs" by blast
  from Cons.IH [OF r] e show ?case by simp
qed

lemma translate_article_no_key_calls:
  "\<not> has_api_key env \<Longrightarrow> translate_article env minimax openai st a = Inr (a', st')
     \<Longrightarrow> calls st' = calls st"
  by (auto simp: translate_article_def translate_with_llm_def
      split: option.splits prod.splits sum.splits)

lemma translate_selected_no_key_calls:
  "\<not> has_api_key env \<Longrightarrow> translate_selected env minimax openai st xs = Inr (xs', st')
     \<Longrightarrow> calls st' = calls st"
proof (induction xs arbitrary: st xs')
  case Nil
  then show ?case by simp
next
  case (Cons a xs)
  from translate_selected_Cons [OF Cons.prems(2)] obtain a' sta zs
    where a: "translate_article env minimax openai st a = Inr (a', sta)"
      and r: "translate_selected env minimax openai sta xs = Inr (zs, st')" by blast
  from Cons.IH [OF Cons.prems(1) r] translate_article_no_key_calls [OF Cons.prems(1) a]
  show ?case by simp
qed

lemma translate_selected_other_keys:
  "translate_selected env minimax openai st xs = Inr (xs', st') \<Longrightarrow>
   list_all (\<lambda>p. cache_key p \<noteq> Some k) xs \<Longrightarrow> map_of (cache st) k = None
     \<Longrightarrow> map_of (cache st') k = None"
proof -
  assume run: "translate_selected env minimax openai st xs = Inr (xs', st')"
    and other: "list_all (\<lambda>p. cache_key p \<noteq> Some k) xs"
    and none: "map_of (cache st) k = None"
  show "map_of (cache st') k = None"
  proof (rule ccontr)
    assume "map_of (cache st') k \<noteq> None"
    from translate_selected_cache_new [OF run none this] other show False
      by (auto simp: list_all_iff)
  qed
qed

lemma translate_article_template:
  assumes "\<not> has_api_key env" and "cache_key a = Some k" and "map_of (cache st) k = None"
  shows "translate_article env minimax openai st a =
     Inr (a\<lparr>zh_title := Some (fst (fallback_template (or_else (title a) []) (source_name a))),
            zh_summary := Some (snd (fallback_template (or_else (title a) []) (source_name a)))\<rparr>,
          st\<lparr>cache := cache st @
                [(k, (Some (fst (fallback_template (or_else (title a) []) (source_name a))),
                      Some (snd (fallback_template (or_else (title a) []) (source_name a)))))]\<rparr>)"
proof -
  have t: "(case title a of None \<Rightarrow> [] | Some t \<Rightarrow> t) = or_else (title a) []"
    by (simp add: or_else_def split: option.splits)
  from assms show ?thesis
    by (simp add: translate_article_def translate_with_llm_def t fallback_template_def Let_def)
qed

text \<open>
  C8 (as amended). With no key configured, an article whose cache key is in neither the
  cache file nor an earlier article of the run gets its own title and the template
  summary (the source name, or the default name when it is absent or empty, between the
  two fixed phrases, then the heading and three placeholder bullets); the pair is in the
  cache under the key, no backend is called, and when the codec accepts every string of
  the cache the file holds that cache at the end of the run.
\<close>

theorem fallback_template_cached:
  assumes "\<not> has_api_key env" and "cache_key a = Some k"
    and "map_of (read_cache disk) k = None"
    and "list_all (\<lambda>p. cache_key p \<noteq> Some k) pre"
  shows "\<exists>pre' rest' c'.
      translate_selected env minimax openai \<lparr>cache = read_cache disk, calls = n\<rparr>
          (pre @ a # rest) =
        Inr (pre' @ a\<lparr>zh_title := Some (or_else (title a) []),
                        zh_summary := Some (zh_from @ or_else (source_name a) zh_community
                                              @ zh_hot_topics @ zh_points)\<rparr> # rest',
             \<lparr>cache = c', calls = n\<rparr>) \<and>
      length pre' = length pre \<and>
      map_of c' k = Some (Some (or_else (title a) []),
                          Some (zh_from @ or_else (source_name a) zh_community
                                  @ zh_hot_topics @ zh_points)) \<and>
      (cache_writable c' \<longrightarrow>
         translate_cached env minimax openai disk n (pre @ a # rest) =
           (Inr (pre' @ a\<lparr>zh_title := Some (or_else (title a) []),
                            zh_summary := Some (zh_from @ or_else (source_name a) zh_community
                                                  @ zh_hot_topics @ zh_points)\<rparr> # rest'),
            Some c', n))"
proof -
  let ?st = "\<lparr>cache = read_cache disk, calls = n\<rparr>"
  let ?T = "or_else (title a) []"
  let ?S = "zh_from @ or_else (source_name a) zh_community @ zh_hot_topics @ zh_points"
  have ft: "fallback_template ?T (source_name a) = (?T, ?S)"
    by (simp add: fallback_template_def Let_def)
  from translate_selected_returns obtain pre' st1
    where p: "translate_selected env minimax openai ?st pre = Inr (pre', st1)" by blast
  from translate_selected_other_keys [OF p assms(4)] assms(3)
  have none: "map_of (cache st1) k = None" by simp
  let ?a' = "a\<lparr>zh_title := Some ?T, zh_summary := Some ?S\<rparr>"
  let ?st2 = "st1\<lparr>cache := cache st1 @ [(k, (Some ?T, Some ?S))]\<rparr>"
  from translate_article_template [OF assms(1,2) none, of minimax openai]
  have a: "translate_article env minimax openai st1 a = Inr (?a', ?st2)"
    by (simp add: ft)
  from translate_selected_returns obtain rest' st3
    where r: "translate_selected env minimax openai ?st2 rest = Inr (rest', st3)" by blast
  from a r have ar: "translate_selected env minimax openai st1 (a # rest) = Inr (?a' # rest', st3)"
    by simp
  from translate_selected_append [OF p ar]
  have all: "translate_selected env minimax openai ?st (pre @ a # rest)
      = Inr (pre' @ ?a' # rest', st3)" .
  from translate_selected_no_key_calls [OF assms(1) all] have n: "calls st3 = n" by simp
  then have st3: "st3 = \<lparr>cache = cache st3, calls = n\<rparr>" by simp
  have "map_of (cache ?st2) k = Some (Some ?T, Some ?S)"
    using none by (simp add: map_add_def)
  from translate_selected_cache_keeps [OF r this]
  have k: "map_of (cache st3) k = Some (Some ?T, Some ?S)" .
  have w: "cache_writable (cache st3) \<longrightarrow>
      translate_cached env minimax openai disk n (pre @ a # rest)
        = (Inr (pre' @ ?a' # rest'), Some (cache st3), n)"
    using translate_cached_written [OF all] n by simp
  from all st3 have "translate_selected env minimax openai ?st (pre @ a # rest)
      = Inr (pre' @ ?a' # rest', \<lparr>cache = cache st3, calls = n\<rparr>)"
    by simp
  with k w translate_selected_length [OF p] show ?thesis by blast
qed

theorem fallback_template_cached_witness:
  "\<not> has_api_key env_none \<and>
   cache_key (item ''hackernews'' ''b'') = Some ''https://example.org/b'' \<and>
   map_of (read_cache (Some old_cache)) ''https://example.org/b'' = None \<and>
   list_all (\<lambda>p. cache_key p \<noteq> Some ''https://example.org/b'') [item ''hackernews'' ''a''] \<and>
   cache_writable (old_cache @ [(''https://example.org/b'', (Some ''b'', Some template_hn))]) \<and>
   translate_cached env_none failing_backend failing_backend (Some old_cache) 0
       ([item ''hackernews'' ''a''] @ item ''hackernews'' ''b'' # [])
     = (Inr [(item ''hackernews'' ''a'')\<lparr>zh_title := Some ''cached title'',
                zh_summary := Some ''cached summary''\<rparr>,
             (item ''hackernews'' ''b'')\<lparr>zh_title := Some ''b'', zh_summary := Some template_hn\<rparr>],
        Some (old_cache @ [(''https://example.org/b'', (Some ''b'', Some template_hn))]), 0) \<and>
   map_of (old_cache @ [(''https://example.org/b'', (Some ''b'', Some template_hn))])
       ''https://example.org/b''
     = Some (Some ''b'', Some template_hn)"
proof -
  let ?c = "old_cache @ [(''https://example.org/b'', (Some ''b'', Some template_hn))]"
  let ?out = "[(item ''hackernews'' ''a'')\<lparr>zh_title := Some ''cached title'',
                zh_summary := Some ''cached summary''\<rparr>,
             (item ''hackernews'' ''b'')\<lparr>zh_title := Some ''b'', zh_summary := Some template_hn\<rparr>]"
  have h3: "map_of (read_cache (Some old_cache)) ''https://example.org/b'' = None"
    by (simp add: read_cache_def old_cache_def)
  have h4: "list_all (\<lambda>p. cache_key p \<noteq> Some ''https://example.org/b'') [item ''hackernews'' ''a'']"
    by (simp add: key_a)
  have w: "cache_writable ?c"
    by (simp add: cache_writable_def old_cache_def encodable_def template_hn_encodable)
  have t: "or_else (title (item ''hackernews'' ''b'')) [] = ''b''"
    and s: "zh_from @ or_else (source_name (item ''hackernews'' ''b'')) zh_community
              @ zh_hot_topics @ zh_points = template_hn"
    by (simp_all add: item_def or_else_def template_hn_def)
  from fallback_template_cached [OF no_key_none key_b h3 h4, of failing_backend failing_backend 0 "[]"]
  obtain pre' rest' c' where
    run: "translate_selected env_none failing_backend failing_backend
          \<lparr>cache = read_cache (Some old_cache), calls = 0\<rparr>
          ([item ''hackernews'' ''a''] @ item ''hackernews'' ''b'' # [])
        = Inr (pre' @ (item ''hackernews'' ''b'')\<lparr>zh_title := Some ''b'',
                 zh_summary := Some template_hn\<rparr> # rest', \<lparr>cache = c', calls = 0\<rparr>)"
    and stored: "map_of c' ''https://example.org/b'' = Some (Some ''b'', Some template_hn)"
    and written: "cache_writable c' \<longrightarrow>
        translate_cached env_none failing_backend failing_backend (Some old_cache) 0
          ([item ''hackernews'' ''a''] @ item ''hackernews'' ''b'' # [])
        = (Inr (pre' @ (item ''hackernews'' ''b'')\<lparr>zh_title := Some ''b'',
                  zh_summary := Some template_hn\<rparr> # rest'), Some c', 0)"
    unfolding t s by blast
  from run have eq: "pre' @ (item ''hackernews'' ''b'')\<lparr>zh_title := Some ''b'',
                 zh_summary := Some template_hn\<rparr> # rest' = ?out" "c' = ?c"
    using run_two by simp_all
  from written w have "translate_cached env_none failing_backend failing_backend (Some old_cache) 0
          ([item ''hackernews'' ''a''] @ item ''hackernews'' ''b'' # []) = (Inr ?out, Some ?c, 0)"
    unfolding eq by (rule mp)
  moreover from stored have "map_of ?c ''https://example.org/b'' = Some (Some ''b'', Some template_hn)"
    unfolding eq .
  ultimately show ?thesis using no_key_none key_b h3 h4 w by (intro conjI)
qed

text \<open>
  C8 as stated fails for three kinds of article, with no key configured: one whose key
  is in the cache gets the cached pair, not its title and the template; one without link
  and title is skipped, and gets nothing; one whose title holds a lone surrogate gets the
  template, but the write of the cache is refused and nothing is persisted.
\<close>

theorem fallback_cache_hit_counterexample:
  "\<not> has_api_key env_none \<and>
   translate_article env_none failing_backend failing_backend
       \<lparr>cache = old_cache, calls = 0\<rparr> (item ''hackernews'' ''a'')
     = Inr ((item ''hackernews'' ''a'')\<lparr>zh_title := Some ''cached title'',
              zh_summary := Some ''cached summary''\<rparr>,
            \<lparr>cache = old_cache, calls = 0\<rparr>) \<and>
   title (item ''hackernews'' ''a'') = Some ''a'' \<and>
   cache_key untitled = None \<and>
   translate_article env_none failing_backend failing_backend fresh_state untitled
     = Inr (untitled, fresh_state) \<and>
   zh_title untitled = None \<and>
   cache_key cut_title = Some ''https://example.org/b'' \<and>
   translate_cached env_none failing_backend failing_backend None 0 [cut_title]
     = (Inl UnicodeEncodeError, None, 0)"
proof -
  have c1: "translate_article env_none failing_backend failing_backend
       \<lparr>cache = old_cache, calls = 0\<rparr> (item ''hackernews'' ''a'')
     = Inr ((item ''hackernews'' ''a'')\<lparr>zh_title := Some ''cached title'',
              zh_summary := Some ''cached summary''\<rparr>,
            \<lparr>cache = old_cache, calls = 0\<rparr>)"
    by (simp add: translate_article_def key_a) (simp add: old_cache_def)
  have c2: "title (item ''hackernews'' ''a'') = Some ''a''" by (simp add: item_def)
  have k: "cache_key untitled = None"
    by (simp add: cache_key_def untitled_def or_else_def)
  have c3: "translate_article env_none failing_backend failing_backend fresh_state untitled
     = Inr (untitled, fresh_state)"
    by (simp add: translate_article_def k)
  have c4: "zh_title untitled = None" by (simp add: untitled_def)
  have f: "title cut_title = Some (''Launch '' @ [CHR 0xED, CHR 0xA0, CHR 0xBD])"
    "description cut_title = None" "source_name cut_title = Some ''Hacker News''"
    by (simp_all add: cut_title_def)
  have t: "translate_with_llm env_none failing_backend failing_backend 0
      (''Launch '' @ [CHR 0xED, CHR 0xA0, CHR 0xBD]) None (Some ''Hacker News'')
      = (Inr (''Launch '' @ [CHR 0xED, CHR 0xA0, CHR 0xBD],
              zh_from @ ''Hacker News'' @ zh_hot_topics @ zh_points), 0)"
    using no_key_none by (simp add: translate_with_llm_def fallback_template_def or_else_def Let_def)
  have run: "translate_selected env_none failing_backend failing_backend
      \<lparr>cache = read_cache None, calls = 0\<rparr> [cut_title]
      = Inr ([cut_title\<lparr>zh_title := Some (''Launch '' @ [CHR 0xED, CHR 0xA0, CHR 0xBD]),
                zh_summary := Some (zh_from @ ''Hacker News'' @ zh_hot_topics @ zh_points)\<rparr>],
             \<lparr>cache = [(''https://example.org/b'',
                  (Some (''Launch '' @ [CHR 0xED, CHR 0xA0, CHR 0xBD]),
                   Some (zh_from @ ''Hacker News'' @ zh_hot_topics @ zh_points)))],
                calls = 0\<rparr>)"
    by (simp add: read_cache_def translate_article_def key_cut f t del: append.simps)
  have nw: "\<not> cache_writable [(''https://example.org/b'',
                  (Some (''Launch '' @ [CHR 0xED, CHR 0xA0, CHR 0xBD]),
                   Some (zh_from @ ''Hacker News'' @ zh_hot_topics @ zh_points)))]"
    by (simp add: cache_writable_def encodable_def)
  from translate_cached_refused [OF run] nw
  have c5: "translate_cached env_none failing_backend failing_backend None 0 [cut_title]
     = (Inl UnicodeEncodeError, None, 0)" by simp
  show ?thesis by (intro conjI) (rule no_key_none c1 c2 k c3 c4 key_cut c5)+
qed

declare findall_links.simps [simp del]

subsection \<open>Deduplication\<close>

lemma scan_previous_union:
  "scan_previous posts base ds seen =
     seen \<union> (\<Union>i\<in>set ds. prior_links posts (base - i))"
  by (induction ds arbitrary: seen) (auto simp: prior_links_def split: option.splits)

text \<open>
  C5. The filter keeps, in input order, exactly the articles whose link is not among the
  links extracted from the documents of the \<open>days\<close> days before the current date (the
  three days before it by default); a day without a document contributes no links, and
  with no documents at all every article is kept.
\<close>

theorem dedupe_drops_seen_links:
  assumes "strptime current_date = Some base"
  shows "dedupe_articles strptime posts articles current_date days =
           Inr (filter (\<lambda>a. \<forall>l. link a = Some l \<longrightarrow>
                          l \<notin> (\<Union>i\<in>{1..days}. prior_links posts (base - i))) articles) \<and>
         dedupe_articles strptime posts articles current_date 3 =
           Inr (filter (\<lambda>a. \<forall>l. link a = Some l \<longrightarrow>
                          l \<notin> prior_links posts (base - 1) \<union> prior_links posts (base - 2)
                                \<union> prior_links posts (base - 3)) articles) \<and>
         ((\<forall>i\<in>{1..days}. posts (base - i) = None) \<longrightarrow>
            dedupe_articles strptime posts articles current_date days = Inr articles)"
proof -
  have pred: "(case link a of None \<Rightarrow> True | Some l \<Rightarrow> l \<notin> S) =
      (\<forall>l. link a = Some l \<longrightarrow> l \<notin> S)" for a :: article and S
    by (cases "link a") simp_all
  have gen: "dedupe_articles strptime posts articles current_date d =
      Inr (filter (\<lambda>a. \<forall>l. link a = Some l \<longrightarrow>
             l \<notin> (\<Union>i\<in>{1..d}. prior_links posts (base - i))) articles)" for d
    using assms by (simp add: dedupe_articles_def scan_previous_union pred)
  have three: "{1..3::int} = {1, 2, 3}" by auto
  have c2: "dedupe_articles strptime posts articles current_date 3 =
           Inr (filter (\<lambda>a. \<forall>l. link a = Some l \<longrightarrow>
                          l \<notin> prior_links posts (base - 1) \<union> prior_links posts (base - 2)
                                \<union> prior_links posts (base - 3)) articles)"
    unfolding gen [of 3] three by (simp add: Un_assoc)
  have c3: "dedupe_articles strptime posts articles current_date days = Inr articles"
    if "\<forall>i\<in>{1..days}. posts (base - i) = None"
  proof -
    from that have "(\<Union>i\<in>{1..days}. prior_links posts (base - i)) = {}"
      by (simp add: prior_links_def)
    then show ?thesis unfolding gen [of days] by simp
  qed
  from gen [of days] c2 c3 show ?thesis by blast
qed

lemma sample_links:
  "findall_links sample_post = [''https://example.org/a'']"
  by (simp add: sample_post_def findall_links.simps match_link_def link_marker_def)

theorem dedupe_drops_seen_links_witness:
  "sample_strptime ''2026-02-10'' = Some 739657 \<and>
   dedupe_articles sample_strptime sample_posts
       [item ''hackernews'' ''a'', item ''hackernews'' ''b''] ''2026-02-10'' 3
     = Inr [item ''hackernews'' ''b''] \<and>
   dedupe_articles sample_strptime (\<lambda>d. None)
       [item ''hackernews'' ''a'', item ''hackernews'' ''b''] ''2026-02-10'' 3
     = Inr [item ''hackernews'' ''a'', item ''hackernews'' ''b'']"
proof -
  have h: "sample_strptime ''2026-02-10'' = Some 739657" by (simp add: sample_strptime_def)
  have p1: "prior_links sample_posts (739657 - 1) = {''https://example.org/a''}"
    by (simp add: prior_links_def sample_posts_def sample_links)
  have p2: "prior_links sample_posts (739657 - 2) = {}"
    and p3: "prior_links sample_posts (739657 - 3) = {}"
    by (simp_all add: prior_links_def sample_posts_def)
  note t1 = dedupe_drops_seen_links [where strptime = sample_strptime
      and current_date = "''2026-02-10''" and posts = sample_posts and days = 3
      and articles = "[item ''hackernews'' ''a'', item ''hackernews'' ''b'']", OF h]
  have "dedupe_articles sample_strptime sample_posts
       [item ''hackernews'' ''a'', item ''hackernews'' ''b''] ''2026-02-10'' 3
     = Inr [item ''hackernews'' ''b'']"
    unfolding t1 [THEN conjunct2, THEN conjunct1] p1 p2 p3 by (simp add: item_def)
  moreover have e: "\<forall>i\<in>{1..3}. (\<lambda>d. None) (739657 - i) = (None :: string option)" by simp
  moreover from dedupe_drops_seen_links [where strptime = sample_strptime
      and current_date = "''2026-02-10''" and posts = "\<lambda>d. None" and days = 3
      and articles = "[item ''hackernews'' ''a'', item ''hackernews'' ''b'']", OF h] e
  have "dedupe_articles sample_strptime (\<lambda>d. None)
       [item ''hackernews'' ''a'', item ''hackernews'' ''b''] ''2026-02-10'' 3
     = Inr [item ''hackernews'' ''a'', item ''hackernews'' ''b'']"
    by blast
  ultimately show ?thesis using h by blast
qed

end
